theory Spec2Isabelle
  imports Main "HOL-Library.Word" "HOL-Library.Signed_Division" "HOL-Library.FSet"
begin

unbundle bit_operations_syntax

section \<open>Basic types\<close>

text \<open>
  A Go \<^verbatim>\<open>byte\<close> is an 8-bit word and a \<^verbatim>\<open>[]byte\<close> a list of them. Go's \<^verbatim>\<open>int\<close> is
  modelled as \<^typ>\<open>int\<close>; its remainder operator \<^verbatim>\<open>%\<close> truncates towards zero, which is
  \<open>smod\<close>. A run-time panic of the Go program is a value of type \<open>panic\<close>, returned on
  the left of a sum.
\<close>

type_synonym byte = "8 word"
type_synonym bytes = "byte list"

datatype panic = IndexOutOfRange | DivideByZero | MakeLenOutOfRange

section \<open>Library functions the daemon calls\<close>

text \<open>
  \<^verbatim>\<open>crypto/sha256\<close> and \<^verbatim>\<open>crypto/ed25519\<close> belong to Go's standard library, not to the
  daemon. They are parameters of the model: every theorem below holds for any functions
  in their place. \<open>Sum256\<close> returns a \<^verbatim>\<open>[32]byte\<close>; where that length matters it is a
  hypothesis. \<open>ed25519_Verify c pub msg sig\<close> has the argument order of Go's
  \<^verbatim>\<open>ed25519.Verify\<close>.
\<close>

record crypto =
  Sum256 :: "bytes \<Rightarrow> bytes"
  ed25519_Sign :: "bytes \<Rightarrow> bytes \<Rightarrow> bytes"
  ed25519_Verify :: "bytes \<Rightarrow> bytes \<Rightarrow> bytes \<Rightarrow> bool"

text \<open>
  Go's built-in \<^verbatim>\<open>copy(dst, src)\<close> overwrites the first \<open>min (len dst) (len src)\<close>
  bytes of \<open>dst\<close>; the result is the new content of \<open>dst\<close>. \<open>subslice b i j\<close> is \<^verbatim>\<open>b[i:j]\<close>
  for indices in range.
\<close>

definition copy_bytes :: "bytes \<Rightarrow> bytes \<Rightarrow> bytes" where
  "copy_bytes dst src = take (length dst) src @ drop (length src) dst"

definition subslice :: "bytes \<Rightarrow> nat \<Rightarrow> nat \<Rightarrow> bytes" where
  "subslice b i j = take (j - i) (drop i b)"

text \<open>\<^verbatim>\<open>binary.BigEndian\<close>: most significant byte first.\<close>

definition PutUint64 :: "64 word \<Rightarrow> bytes" where
  "PutUint64 v = map (\<lambda>k. ucast (drop_bit (8 * k) v)) [7, 6, 5, 4, 3, 2, 1, 0]"

definition PutUint32 :: "32 word \<Rightarrow> bytes" where
  "PutUint32 v = map (\<lambda>k. ucast (drop_bit (8 * k) v)) [3, 2, 1, 0]"

definition Uint32 :: "bytes \<Rightarrow> 32 word" where
  "Uint32 b = ucast (b ! 3) OR push_bit 8 (ucast (b ! 2)) OR push_bit 16 (ucast (b ! 1))
               OR push_bit 24 (ucast (b ! 0))"

definition Uint64 :: "bytes \<Rightarrow> 64 word" where
  "Uint64 b = ucast (b ! 7) OR push_bit 8 (ucast (b ! 6)) OR push_bit 16 (ucast (b ! 5))
               OR push_bit 24 (ucast (b ! 4)) OR push_bit 32 (ucast (b ! 3))
               OR push_bit 40 (ucast (b ! 2)) OR push_bit 48 (ucast (b ! 1))
               OR push_bit 56 (ucast (b ! 0))"

section \<open>Ring buffer (buffer.go)\<close>

text \<open>
  \<^verbatim>\<open>packets [][]byte\<close> is a slice of slices; an entry that was never written is \<^verbatim>\<open>nil\<close>,
  here \<open>None\<close>. \<^verbatim>\<open>Add\<close> stores a fresh copy of its argument, which is never \<^verbatim>\<open>nil\<close>.
\<close>

record PacketBuffer =
  packets :: "bytes option list"
  size_pb :: int
  head :: int
  count :: int

definition NewPacketBuffer :: "int \<Rightarrow> panic + PacketBuffer" where
  "NewPacketBuffer sz =
     (if sz < 0 then Inl MakeLenOutOfRange
      else Inr \<lparr>packets = replicate (nat sz) None, size_pb = sz, head = 0, count = 0\<rparr>)"

definition Add :: "PacketBuffer \<Rightarrow> bytes \<Rightarrow> panic + PacketBuffer" where
  "Add pb data =
     (let pkt = copy_bytes (replicate (length data) 0) data in
      if \<not> (0 \<le> head pb \<and> head pb < int (length (packets pb))) then Inl IndexOutOfRange
      else if size_pb pb = 0 then Inl DivideByZero
      else Inr (pb\<lparr>packets := (packets pb)[nat (head pb) := Some pkt],
                    head := (head pb + 1) smod size_pb pb,
                    count := (if count pb < size_pb pb then count pb + 1 else count pb)\<rparr>))"

function GetAll_loop :: "PacketBuffer \<Rightarrow> int \<Rightarrow> int \<Rightarrow> bytes list \<Rightarrow> panic + bytes list" where
  "GetAll_loop pb start i result =
     (if i < count pb then
        (if size_pb pb = 0 then Inl DivideByZero
         else let idx = (start + i) smod size_pb pb in
           if \<not> (0 \<le> idx \<and> idx < int (length (packets pb))) then Inl IndexOutOfRange
           else (case packets pb ! nat idx of
                   None \<Rightarrow> GetAll_loop pb start (i + 1) result
                 | Some p \<Rightarrow> GetAll_loop pb start (i + 1) (result @ [p])))
      else Inr result)"
  by pat_completeness auto
termination
  by (relation "measure (\<lambda>(pb, start, i, result). nat (count pb - i))") auto

declare GetAll_loop.simps [simp del]

definition GetAll :: "PacketBuffer \<Rightarrow> panic + bytes list" where
  "GetAll pb =
     (if count pb < 0 then Inl MakeLenOutOfRange
      else let start = head pb - count pb;
               start = (if start < 0 then start + size_pb pb else start)
           in GetAll_loop pb start 0 [])"

text \<open>\<open>Add_all\<close> is a sequence of calls to \<open>Add\<close>, stopping at the first panic.\<close>

fun Add_all :: "PacketBuffer \<Rightarrow> bytes list \<Rightarrow> panic + PacketBuffer" where
  "Add_all pb [] = Inr pb"
| "Add_all pb (p # ps) = (case Add pb p of Inl e \<Rightarrow> Inl e | Inr pb' \<Rightarrow> Add_all pb' ps)"

section \<open>Deduplication (dedup.go)\<close>

definition PacketHash :: "crypto \<Rightarrow> bytes \<Rightarrow> bytes" where
  "PacketHash c data =
     (let h = Sum256 c data;
          id = replicate 8 0
      in copy_bytes id (take 8 h))"

text \<open>
  \<^verbatim>\<open>seen map[[8]byte]struct{}\<close> is a finite set of hashes, \<^verbatim>\<open>len(d.seen)\<close> its cardinality.
\<close>

record DedupFilter =
  seen :: "bytes fset"
  max_df :: int

definition NewDedupFilter :: "int \<Rightarrow> DedupFilter" where
  "NewDedupFilter maxEntries = \<lparr>seen = {||}, max_df = maxEntries\<rparr>"

definition IsDuplicate :: "DedupFilter \<Rightarrow> bytes \<Rightarrow> bool \<times> DedupFilter" where
  "IsDuplicate d hash =
     (if hash |\<in>| seen d then (True, d)
      else let d1 = (if int (fcard (seen d)) \<ge> max_df d then d\<lparr>seen := {||}\<rparr> else d)
           in (False, d1\<lparr>seen := finsert hash (seen d1)\<rparr>))"

text \<open>The filter after a sequence of calls, whatever they returned.\<close>

fun IsDuplicate_run :: "DedupFilter \<Rightarrow> bytes list \<Rightarrow> DedupFilter" where
  "IsDuplicate_run d [] = d"
| "IsDuplicate_run d (h # hs) = IsDuplicate_run (snd (IsDuplicate d h)) hs"

section \<open>Proof of work (pow.go)\<close>

text \<open>
  \<^verbatim>\<open>hasLeadingZeros\<close> indexes \<^verbatim>\<open>hash\<close>; an index past the end is a panic. The loop counter
  \<^verbatim>\<open>i\<close> is a \<^verbatim>\<open>uint8\<close>.
\<close>

function zero_bytes_loop :: "bytes \<Rightarrow> 8 word \<Rightarrow> 8 word \<Rightarrow> panic + bool" where
  "zero_bytes_loop hash i full =
     (if i < full then
        (if \<not> unat i < length hash then Inl IndexOutOfRange
         else if hash ! unat i \<noteq> 0 then Inr False
         else zero_bytes_loop hash (i + 1) full)
      else Inr True)"
  by pat_completeness auto
termination
proof (relation "measure (\<lambda>(hash, i, full). unat full - unat i)")
  fix hash :: bytes and i full :: "8 word"
  assume lt: "i < full"
  have "i + 1 \<noteq> 0"
  proof
    assume "i + 1 = 0"
    then have "i = - 1" by (simp add: eq_neg_iff_add_eq_0)
    with lt show False by simp
  qed
  then have "unat (i + 1) = Suc (unat i)"
    by (simp add: unatSuc add.commute)
  moreover have "unat i < unat full" using lt by (simp add: word_less_nat_alt)
  ultimately show "((hash, i + 1, full), (hash, i, full)) \<in> measure (\<lambda>(hash, i, full). unat full - unat i)"
    by simp
qed simp

declare zero_bytes_loop.simps [simp del]

definition hasLeadingZeros :: "bytes \<Rightarrow> 8 word \<Rightarrow> panic + bool" where
  "hasLeadingZeros hash n =
     (let full = n div 8;
          rem = n mod 8
      in case zero_bytes_loop hash 0 full of
           Inl e \<Rightarrow> Inl e
         | Inr False \<Rightarrow> Inr False
         | Inr True \<Rightarrow>
             if rem > 0 then
               (let mask = (push_bit (unat (8 - rem)) 0xFF :: byte)
                in if \<not> unat full < length hash then Inl IndexOutOfRange
                   else if hash ! unat full AND mask \<noteq> 0 then Inr False
                   else Inr True)
             else Inr True)"

definition pow_buf :: "bytes \<Rightarrow> 64 word \<Rightarrow> bytes" where
  "pow_buf nonce solution = copy_bytes (replicate 32 0) nonce @ PutUint64 solution"

definition VerifyPoW :: "crypto \<Rightarrow> bytes \<Rightarrow> 64 word \<Rightarrow> 8 word \<Rightarrow> panic + bool" where
  "VerifyPoW c nonce solution difficulty =
     (let buf = pow_buf nonce solution;
          hash = Sum256 c buf
      in hasLeadingZeros hash difficulty)"

datatype solve_error = Exhausted | Panicked panic

function SolvePoW_loop :: "crypto \<Rightarrow> bytes \<Rightarrow> 8 word \<Rightarrow> 64 word \<Rightarrow> solve_error + 64 word" where
  "SolvePoW_loop c nonce difficulty sol =
     (case hasLeadingZeros (Sum256 c (pow_buf nonce sol)) difficulty of
        Inl e \<Rightarrow> Inl (Panicked e)
      | Inr True \<Rightarrow> Inr sol
      | Inr False \<Rightarrow>
          if sol = NOT 0 then Inl Exhausted
          else SolvePoW_loop c nonce difficulty (sol + 1))"
  by pat_completeness auto
termination
proof (relation "measure (\<lambda>(c, nonce, difficulty, sol). unat (NOT sol))")
  fix c :: crypto and nonce :: bytes and difficulty :: "8 word" and sol :: "64 word"
  assume "sol \<noteq> NOT 0"
  then have nz: "NOT sol \<noteq> 0" by (metis bit.double_compl)
  then have "0 < unat (NOT sol)" by (simp add: unat_gt_0)
  moreover have "unat (NOT sol - 1) = unat (NOT sol) - 1" by (rule unat_minus_one[OF nz])
  moreover have "NOT (sol + 1) = NOT sol - 1"
    by (simp add: not_eq_complement)
  ultimately have "unat (NOT (sol + 1)) < unat (NOT sol)"
    by simp
  then show "((c, nonce, difficulty, sol + 1), (c, nonce, difficulty, sol))
      \<in> measure (\<lambda>(c, nonce, difficulty, sol). unat (NOT sol))"
    by simp
qed simp

declare SolvePoW_loop.simps [simp del]

definition SolvePoW :: "crypto \<Rightarrow> bytes \<Rightarrow> 8 word \<Rightarrow> solve_error + 64 word" where
  "SolvePoW c nonce difficulty = SolvePoW_loop c nonce difficulty 0"

text \<open>
  The specification's reading of the check: the bits of the hash, most significant bit of
  byte 0 first, and the number of zero bits before the first one bit.
\<close>

definition bits_of_byte :: "byte \<Rightarrow> bool list" where
  "bits_of_byte b = map (\<lambda>k. bit b (7 - k)) [0..<8]"

definition leading_zero_bits :: "bytes \<Rightarrow> nat" where
  "leading_zero_bits h = length (takeWhile Not (concat (map bits_of_byte h)))"


section \<open>Frame codec (frame.go)\<close>

text \<open>
  The connection is the sequence of bytes still to be read. \<^verbatim>\<open>io.ReadFull\<close> returns exactly
  \<open>n\<close> bytes and the rest of the stream, or an error when fewer are available.
  \<^verbatim>\<open>WriteFrame\<close> is modelled by the buffer it hands to \<^verbatim>\<open>conn.Write\<close>. The conversion
  \<^verbatim>\<open>uint32(len(payload))\<close> keeps the low 32 bits, which is \<^term>\<open>of_nat\<close> on words.

  Go's \<^verbatim>\<open>int\<close> has 32 bits on the 32-bit build targets (mips, mipsle, arm) and 64 bits on
  the others. The conversion \<^verbatim>\<open>int(length)\<close> of a \<^verbatim>\<open>uint32\<close> is the unsigned value with
  64 bits and the two's complement value with 32 bits, where a length from \<open>2\<^sup>3\<^sup>1\<close> on
  is negative, passes the size check, and makes \<^verbatim>\<open>make([]byte, length)\<close> panic.
\<close>

datatype arch = Arch32 | Arch64

fun MaxInt :: "arch \<Rightarrow> int" where
  "MaxInt Arch32 = 2 ^ 31 - 1"
| "MaxInt Arch64 = 2 ^ 63 - 1"

fun int_of_uint32 :: "arch \<Rightarrow> 32 word \<Rightarrow> int" where
  "int_of_uint32 Arch32 v = sint v"
| "int_of_uint32 Arch64 v = uint v"

definition FrameHello :: byte where "FrameHello = 0x01"
definition FrameChallenge :: byte where "FrameChallenge = 0x02"
definition FrameSolution :: byte where "FrameSolution = 0x03"
definition FrameAccept :: byte where "FrameAccept = 0x04"
definition FrameReject :: byte where "FrameReject = 0x05"
definition FrameData :: byte where "FrameData = 0x10"
definition FramePing :: byte where "FramePing = 0x20"
definition FramePong :: byte where "FramePong = 0x21"

record Frame =
  Type :: byte
  Payload :: bytes

datatype frame_error = ReadHeaderError | FrameTooLarge | ReadPayloadError | FramePanic panic

definition ReadFull :: "bytes \<Rightarrow> nat \<Rightarrow> (bytes \<times> bytes) option" where
  "ReadFull conn n = (if length conn < n then None else Some (take n conn, drop n conn))"

definition ReadFrame :: "arch \<Rightarrow> bytes \<Rightarrow> int \<Rightarrow> frame_error + Frame \<times> bytes" where
  "ReadFrame target conn maxPayload =
     (case ReadFull conn 5 of
        None \<Rightarrow> Inl ReadHeaderError
      | Some (header, conn1) \<Rightarrow>
          let frameType = header ! 0;
              len = Uint32 (subslice header 1 5)
          in if int_of_uint32 target len > maxPayload then Inl FrameTooLarge
             else if uint len > MaxInt target then Inl (FramePanic MakeLenOutOfRange)
             else let payload = replicate (unat len) 0
                  in if len > 0 then
                       (case ReadFull conn1 (unat len) of
                          None \<Rightarrow> Inl ReadPayloadError
                        | Some (payload, conn2) \<Rightarrow>
                            Inr (\<lparr>Type = frameType, Payload = payload\<rparr>, conn2))
                     else Inr (\<lparr>Type = frameType, Payload = payload\<rparr>, conn1))"

definition WriteFrame :: "byte \<Rightarrow> bytes \<Rightarrow> bytes" where
  "WriteFrame frameType payload =
     [frameType] @ PutUint32 (of_nat (length payload))
       @ copy_bytes (replicate (length payload) 0) payload"

section \<open>Client sessions (client.go)\<close>

text \<open>
  \<^verbatim>\<open>writeCh\<close> is a buffered channel of capacity 64, here the list of frames waiting in
  it. \<^verbatim>\<open>Send\<close> is the non-blocking \<^verbatim>\<open>select\<close>: it appends when there is room and
  drops the frame otherwise. The connection, the address and the rate limiter play no
  part in routing and are left out.
\<close>

record Client =
  closed :: bool
  writeCh :: "(byte \<times> bytes) list"

definition NewClient :: Client where
  "NewClient = \<lparr>closed = False, writeCh = []\<rparr>"

definition Client_Send :: "Client \<Rightarrow> byte \<Rightarrow> bytes \<Rightarrow> Client" where
  "Client_Send cl frameType payload =
     (if closed cl then cl
      else if length (writeCh cl) < 64 then cl\<lparr>writeCh := writeCh cl @ [(frameType, payload)]\<rparr>
      else cl)"

definition SendData :: "Client \<Rightarrow> bytes \<Rightarrow> Client" where
  "SendData cl data = Client_Send cl FrameData data"

section \<open>Relay authentication (auth.go)\<close>

text \<open>
  \<^verbatim>\<open>strings.TrimSpace\<close> and \<^verbatim>\<open>strings.ToLower\<close> work with Go's Unicode tables, which
  are not part of the daemon. Like the functions of \<open>crypto\<close> they are parameters of the
  model: what is proved of \<^verbatim>\<open>NewRelayAuth\<close> holds for any functions in their place.
\<close>

record strings_pkg =
  TrimSpace :: "string \<Rightarrow> string"
  ToLower :: "string \<Rightarrow> string"

text \<open>\<^verbatim>\<open>encoding/hex\<close>, on byte strings.\<close>

definition hexdigits :: string where
  "hexdigits = ''0123456789abcdef''"

definition hex_EncodeToString :: "bytes \<Rightarrow> string" where
  "hex_EncodeToString bs =
     concat (map (\<lambda>b. [hexdigits ! (unat b div 16), hexdigits ! (unat b mod 16)]) bs)"

definition fromHexChar :: "char \<Rightarrow> nat option" where
  "fromHexChar ch =
     (let n = (of_char ch :: nat)
      in if 48 \<le> n \<and> n \<le> 57 then Some (n - 48)
         else if 97 \<le> n \<and> n \<le> 102 then Some (n - 87)
         else if 65 \<le> n \<and> n \<le> 70 then Some (n - 55)
         else None)"

fun hex_DecodeString :: "string \<Rightarrow> bytes option" where
  "hex_DecodeString [] = Some []"
| "hex_DecodeString [a] = None"
| "hex_DecodeString (a # b # rest) =
     (case (fromHexChar a, fromHexChar b) of
        (Some x, Some y) \<Rightarrow> map_option ((#) (of_nat (x * 16 + y))) (hex_DecodeString rest)
      | _ \<Rightarrow> None)"

fun Split_lines :: "string \<Rightarrow> string list" where
  "Split_lines [] = [[]]"
| "Split_lines (ch # s) =
     (if ch = CHR 0x0A then [] # Split_lines s
      else (case Split_lines s of l # ls \<Rightarrow> (ch # l) # ls | [] \<Rightarrow> [[ch]]))"

definition HasPrefix_hash :: "string \<Rightarrow> bool" where
  "HasPrefix_hash line = (case line of [] \<Rightarrow> False | ch # _ \<Rightarrow> ch = CHR ''#'')"

definition string_of_bytes :: "bytes \<Rightarrow> string" where
  "string_of_bytes bs = map (\<lambda>b. char_of (unat b)) bs"

text \<open>
  \<^verbatim>\<open>filepath.Join\<close> of two elements, on Unix: empty elements are ignored, the others are
  joined by a slash, and the result is cleaned by \<^verbatim>\<open>filepath.Clean\<close>. \<open>Clean\<close> goes
  through the elements between slashes: it drops empty elements and \<open>.\<close>, lets \<open>..\<close>
  remove the element before it (at the start, \<open>..\<close> is dropped in a rooted path and kept
  otherwise), and returns \<open>.\<close> for an empty result.
\<close>

fun path_elements :: "string \<Rightarrow> string list" where
  "path_elements [] = [[]]"
| "path_elements (ch # s) =
     (if ch = CHR ''/'' then [] # path_elements s
      else (case path_elements s of l # ls \<Rightarrow> (ch # l) # ls | [] \<Rightarrow> [[ch]]))"

definition clean_step :: "bool \<Rightarrow> string list \<Rightarrow> string \<Rightarrow> string list" where
  "clean_step rooted out e =
     (if e = [] \<or> e = ''.'' then out
      else if e = ''..'' then
        (if out \<noteq> [] \<and> last out \<noteq> ''..'' then butlast out
         else if rooted then out
         else out @ [''..''])
      else out @ [e])"

fun join_slash :: "string list \<Rightarrow> string" where
  "join_slash [] = []"
| "join_slash [e] = e"
| "join_slash (e # es) = e @ ''/'' @ join_slash es"

definition Clean :: "string \<Rightarrow> string" where
  "Clean path =
     (if path = [] then ''.''
      else let rooted = (hd path = CHR ''/'');
               out = foldl (clean_step rooted) [] (path_elements path)
           in if rooted then ''/'' @ join_slash out
              else if out = [] then ''.''
              else join_slash out)"

definition filepath_Join :: "string \<Rightarrow> string \<Rightarrow> string" where
  "filepath_Join dir name =
     (if dir \<noteq> [] then Clean (dir @ ''/'' @ name)
      else if name \<noteq> [] then Clean name
      else [])"

text \<open>
  What \<^verbatim>\<open>NewRelayAuth\<close> sees of its environment: the files that can be read
  (\<^verbatim>\<open>os.ReadFile\<close> and \<^verbatim>\<open>os.Stat\<close> fail on any other path), their modification times, whether
  \<^verbatim>\<open>os.MkdirAll\<close> and \<^verbatim>\<open>os.WriteFile\<close> succeed, and the keypair \<^verbatim>\<open>ed25519.GenerateKey\<close>
  draws from the random source (\<open>None\<close> when it fails), as (public, private).
\<close>

record world =
  files :: "string \<rightharpoonup> bytes"
  modtime :: "string \<Rightarrow> int"
  mkdir_ok :: bool
  write_ok :: bool
  rand_key :: "(bytes \<times> bytes) option"

datatype auth_error = InvalidCAKey | GenerateKeyFailed | CreateKeyDirFailed | SaveKeyFailed

text \<open>
  A \<^verbatim>\<open>nil\<close> slice is the empty list, a \<^verbatim>\<open>nil\<close> CA key is \<open>None\<close>. The maps
  \<^verbatim>\<open>map[string]bool\<close> are read only by indexing, where a missing key gives \<^verbatim>\<open>false\<close>.
  \<open>crlModTime\<close> starts at the zero time, written 0.
\<close>

record RelayAuth =
  PrivateKey :: bytes
  PublicKey :: bytes
  Certificate :: bytes
  CAPubKey :: "bytes option"
  revokedKeys :: "string \<Rightarrow> bool"
  crlPath :: string
  crlModTime :: int
  certCache :: "string \<Rightarrow> bool"

definition loadCRL :: "strings_pkg \<Rightarrow> world \<Rightarrow> RelayAuth \<Rightarrow> RelayAuth" where
  "loadCRL L w a =
     (if crlPath a = [] then a
      else case files w (crlPath a) of
        None \<Rightarrow> a
      | Some data \<Rightarrow>
          if modtime w (crlPath a) = crlModTime a then a
          else let lines = map (\<lambda>line. TrimSpace L (ToLower L line))
                             (Split_lines (string_of_bytes data));
                   newRevoked = (\<lambda>k. k \<in> set (filter (\<lambda>line. line \<noteq> [] \<and> \<not> HasPrefix_hash line) lines))
               in a\<lparr>revokedKeys := newRevoked, crlModTime := modtime w (crlPath a)\<rparr>)"

definition load_certificate :: "strings_pkg \<Rightarrow> world \<Rightarrow> string \<Rightarrow> RelayAuth \<Rightarrow> RelayAuth" where
  "load_certificate L w keyDir a =
     (let certPath = filepath_Join keyDir ''relay.cert''
      in case files w certPath of
           None \<Rightarrow> a
         | Some certData \<Rightarrow>
             (case hex_DecodeString (TrimSpace L (string_of_bytes certData)) of
                None \<Rightarrow> a
              | Some cert \<Rightarrow> if length cert = 64 then a\<lparr>Certificate := cert\<rparr> else a))"

definition NewRelayAuth ::
  "strings_pkg \<Rightarrow> world \<Rightarrow> string \<Rightarrow> string \<Rightarrow> string \<Rightarrow> auth_error + RelayAuth \<times> world" where
  "NewRelayAuth L w keyDir caKeyHex crlPath' =
     (let a0 = \<lparr>PrivateKey = [], PublicKey = [], Certificate = [], CAPubKey = None,
                revokedKeys = (\<lambda>_. False), crlPath = crlPath', crlModTime = 0,
                certCache = (\<lambda>_. False)\<rparr>;
          ca = (if caKeyHex \<noteq> [] then
                  (case hex_DecodeString (TrimSpace L caKeyHex) of
                     None \<Rightarrow> Inl InvalidCAKey
                   | Some caPub \<Rightarrow>
                       if length caPub \<noteq> 32 then Inl InvalidCAKey
                       else Inr (a0\<lparr>CAPubKey := Some caPub\<rparr>))
                else Inr a0)
      in case ca of
           Inl e \<Rightarrow> Inl e
         | Inr a1 \<Rightarrow>
            (let keyPath = filepath_Join keyDir ''relay_ed25519.key'';
                 loaded = (case files w keyPath of
                             None \<Rightarrow> None
                           | Some data \<Rightarrow> if length data = 64 then Some data else None);
                 key = (case loaded of
                          Some data \<Rightarrow> Inr (a1\<lparr>PrivateKey := data, PublicKey := drop 32 data\<rparr>, w)
                        | None \<Rightarrow>
                            (case rand_key w of
                               None \<Rightarrow> Inl GenerateKeyFailed
                             | Some (pub, priv) \<Rightarrow>
                                 if \<not> mkdir_ok w then Inl CreateKeyDirFailed
                                 else if \<not> write_ok w then Inl SaveKeyFailed
                                 else Inr (a1\<lparr>PrivateKey := priv, PublicKey := pub\<rparr>,
                                           w\<lparr>files := (files w)(keyPath := Some priv)\<rparr>)))
             in (case key of
                   Inl e \<Rightarrow> Inl e
                 | Inr (a2, w') \<Rightarrow> Inr (loadCRL L w' (load_certificate L w' keyDir a2), w'))))"



definition Sign :: "crypto \<Rightarrow> RelayAuth \<Rightarrow> bytes \<Rightarrow> bytes" where
  "Sign c a data = ed25519_Sign c (PrivateKey a) data"

definition Verify :: "crypto \<Rightarrow> bytes \<Rightarrow> bytes \<Rightarrow> bytes \<Rightarrow> bool" where
  "Verify c pubKey signature data =
     (if length pubKey \<noteq> 32 \<or> length signature \<noteq> 64 then False
      else ed25519_Verify c pubKey data signature)"

definition IsSelf :: "RelayAuth \<Rightarrow> bytes \<Rightarrow> bool" where
  "IsSelf a pubKey = (hex_EncodeToString pubKey = hex_EncodeToString (PublicKey a))"

definition IsRevoked :: "RelayAuth \<Rightarrow> bytes \<Rightarrow> bool" where
  "IsRevoked a pubKey = revokedKeys a (hex_EncodeToString pubKey)"

definition IsTrustedLegacy :: "RelayAuth \<Rightarrow> bytes \<Rightarrow> bool" where
  "IsTrustedLegacy a pubKey = (if IsSelf a pubKey then False else \<not> IsRevoked a pubKey)"

definition VerifyCertificate :: "crypto \<Rightarrow> RelayAuth \<Rightarrow> bytes \<Rightarrow> bytes \<Rightarrow> bool \<times> RelayAuth" where
  "VerifyCertificate c a pubKey cert =
     (case CAPubKey a of
        None \<Rightarrow> (False, a)
      | Some ca \<Rightarrow>
          if length cert \<noteq> 64 then (False, a)
          else if \<not> ed25519_Verify c ca pubKey cert then (False, a)
          else (True, a\<lparr>certCache := (certCache a)(hex_EncodeToString pubKey := True)\<rparr>))"

definition HasCertificate :: "RelayAuth \<Rightarrow> bool" where
  "HasCertificate a = (length (Certificate a) = 64)"

definition HasCA :: "RelayAuth \<Rightarrow> bool" where
  "HasCA a = (CAPubKey a \<noteq> None)"


section \<open>Mesh link (mesh.go)\<close>

definition pubKeyLen :: nat where "pubKeyLen = 32"
definition certLen :: nat where "certLen = 64"
definition sigLen :: nat where "sigLen = 64"
definition caHeaderLen :: nat where "caHeaderLen = pubKeyLen + certLen + sigLen"

text \<open>
  \<open>sent\<close> lists the datagrams handed to \<^verbatim>\<open>sendConn.Write\<close>. The router a link points to
  is the one router of the process, so the pointer is modelled by whether it is set.
\<close>

record MeshLink =
  auth :: "RelayAuth option"
  router_set :: bool
  sent :: "bytes list"

definition MeshLink_Send :: "crypto \<Rightarrow> MeshLink \<Rightarrow> bytes \<Rightarrow> MeshLink" where
  "MeshLink_Send c m data =
     (case auth m of
        None \<Rightarrow> m
      | Some a \<Rightarrow>
          let sig = Sign c a data
          in if HasCA a \<and> HasCertificate a then
               (let msg = copy_bytes (replicate pubKeyLen 0) (PublicKey a)
                          @ copy_bytes (replicate certLen 0) (Certificate a)
                          @ copy_bytes (replicate sigLen 0) sig
                          @ copy_bytes (replicate (length data) 0) data
                in m\<lparr>sent := sent m @ [msg]\<rparr>)
             else
               (let legacyHeaderLen = pubKeyLen + sigLen;
                    msg = copy_bytes (replicate pubKeyLen 0) (PublicKey a)
                          @ copy_bytes (replicate (legacyHeaderLen - pubKeyLen) 0) sig
                          @ copy_bytes (replicate (length data) 0) data
                in m\<lparr>sent := sent m @ [msg]\<rparr>))"

text \<open>
  One pass through the body of \<^verbatim>\<open>RecvLoop\<close>, for one result of \<^verbatim>\<open>ReadFromUDP\<close>:
  \<open>err\<close> tells whether the read failed, \<open>n\<close> is the number of bytes received and \<open>buf\<close>
  the receive buffer. The pass returns, in the order they happen, the calls it makes to
  \<^verbatim>\<open>VerifyCertificate\<close>, \<^verbatim>\<open>Verify\<close> and \<^verbatim>\<open>RouteFromMesh\<close>, and the link with the
  certificate cache updated.
\<close>

datatype mesh_event =
    EvVerifyCertificate bytes bytes
  | EvVerify bytes bytes bytes
  | EvRouteFromMesh bytes

definition RecvLoop_iter ::
  "crypto \<Rightarrow> MeshLink \<Rightarrow> bool \<Rightarrow> nat \<Rightarrow> bytes \<Rightarrow> mesh_event list \<times> MeshLink" where
  "RecvLoop_iter c m err n buf =
     (if err then ([], m)
      else case auth m of
        None \<Rightarrow> ([], m)
      | Some a \<Rightarrow>
          if n \<le> pubKeyLen + sigLen then ([], m)
          else let pubKey = copy_bytes (replicate pubKeyLen 0) (subslice buf 0 pubKeyLen)
            in if IsSelf a pubKey then ([], m)
               else if IsRevoked a pubKey then ([], m)
               else if HasCA a then
                 (if n \<le> caHeaderLen then ([], m)
                  else let cert = copy_bytes (replicate certLen 0)
                                    (subslice buf pubKeyLen (pubKeyLen + certLen));
                           sig = copy_bytes (replicate sigLen 0)
                                    (subslice buf (pubKeyLen + certLen) caHeaderLen);
                           data = copy_bytes (replicate (n - caHeaderLen) 0)
                                    (subslice buf caHeaderLen n);
                           (certOk, a1) = VerifyCertificate c a pubKey cert;
                           m1 = m\<lparr>auth := Some a1\<rparr>
                       in if \<not> certOk then ([EvVerifyCertificate pubKey cert], m1)
                          else if \<not> Verify c pubKey sig data then
                            ([EvVerifyCertificate pubKey cert, EvVerify pubKey sig data], m1)
                          else
                            ([EvVerifyCertificate pubKey cert, EvVerify pubKey sig data]
                               @ (if router_set m then [EvRouteFromMesh data] else []), m1))
               else
                 (let legacyHeaderLen = pubKeyLen + sigLen
                  in if n \<le> legacyHeaderLen then ([], m)
                     else let sig = copy_bytes (replicate sigLen 0)
                                      (subslice buf pubKeyLen legacyHeaderLen);
                              data = copy_bytes (replicate (n - legacyHeaderLen) 0)
                                      (subslice buf legacyHeaderLen n)
                          in if \<not> Verify c pubKey sig data then
                               ([EvVerify pubKey sig data], m)
                             else
                               ([EvVerify pubKey sig data]
                                  @ (if router_set m then [EvRouteFromMesh data] else []), m)))"

section \<open>Configuration (config.go)\<close>

text \<open>The fields of \<^verbatim>\<open>Config\<close> that the modelled functions read.\<close>

record Config =
  MaxClients :: int
  MaxPacketSize :: int
  PoWDifficulty :: "8 word"
  BufferSize :: int
  DedupMaxEntries :: int

definition DefaultConfig :: Config where
  "DefaultConfig = \<lparr>MaxClients = 20, MaxPacketSize = 65536, PoWDifficulty = 20,
                     BufferSize = 1000, DedupMaxEntries = 10000\<rparr>"

section \<open>Router (router.go)\<close>

text \<open>
  A \<^verbatim>\<open>*Client\<close> is an address, a natural number; \<open>store\<close> maps each address to the
  object it points to, and \<open>clients\<close> holds the addresses that are keys of the map
  \<^verbatim>\<open>clients map[*Client]bool\<close>. The fan-out loops visit the keys in an order Go leaves
  open; each key is visited once and each visit changes only the queue of its own client,
  so the result does not depend on the order and is written as one update of the store.
  \<^verbatim>\<open>GlobalLimiter\<close> is not read by the functions below and is left out.
\<close>

record Router =
  clients :: "nat fset"
  store :: "nat \<Rightarrow> Client"
  mesh :: "MeshLink option"
  buffer :: PacketBuffer
  dedup :: DedupFilter

definition NewRouter :: "Config \<Rightarrow> (nat \<Rightarrow> Client) \<Rightarrow> panic + Router" where
  "NewRouter cfg heap =
     (case NewPacketBuffer (BufferSize cfg) of
        Inl e \<Rightarrow> Inl e
      | Inr b \<Rightarrow> Inr \<lparr>clients = {||}, store = heap, mesh = None, buffer = b,
                       dedup = NewDedupFilter (DedupMaxEntries cfg)\<rparr>)"

definition SetMesh :: "Router \<Rightarrow> MeshLink \<Rightarrow> Router" where
  "SetMesh r m = r\<lparr>mesh := Some m\<rparr>"

definition AddClient :: "Router \<Rightarrow> nat \<Rightarrow> panic + Router" where
  "AddClient r cl =
     (let r1 = r\<lparr>clients := finsert cl (clients r)\<rparr>
      in case GetAll (buffer r1) of
           Inl e \<Rightarrow> Inl e
         | Inr pkts \<Rightarrow>
             Inr (r1\<lparr>store := (store r1)(cl := fold (\<lambda>pkt x. SendData x pkt) pkts (store r1 cl))\<rparr>))"

definition RemoveClient :: "Router \<Rightarrow> nat \<Rightarrow> Router" where
  "RemoveClient r cl = r\<lparr>clients := clients r |-| {|cl|}\<rparr>"

definition ClientCount :: "Router \<Rightarrow> int" where
  "ClientCount r = int (fcard (clients r))"

definition RouteFromClient :: "crypto \<Rightarrow> Router \<Rightarrow> nat \<Rightarrow> bytes \<Rightarrow> panic + Router" where
  "RouteFromClient c r sender data =
     (let hash = PacketHash c data;
          (dup, d1) = IsDuplicate (dedup r) hash
      in if dup then Inr (r\<lparr>dedup := d1\<rparr>)
         else case Add (buffer r) data of
           Inl e \<Rightarrow> Inl e
         | Inr b1 \<Rightarrow>
             Inr (r\<lparr>dedup := d1, buffer := b1,
                    store := (\<lambda>cl. if cl |\<in>| clients r \<and> cl \<noteq> sender
                                    then SendData (store r cl) data else store r cl),
                    mesh := map_option (\<lambda>m. MeshLink_Send c m data) (mesh r)\<rparr>))"

definition RouteFromMesh :: "crypto \<Rightarrow> Router \<Rightarrow> bytes \<Rightarrow> panic + Router" where
  "RouteFromMesh c r data =
     (let hash = PacketHash c data;
          (dup, d1) = IsDuplicate (dedup r) hash
      in if dup then Inr (r\<lparr>dedup := d1\<rparr>)
         else case Add (buffer r) data of
           Inl e \<Rightarrow> Inl e
         | Inr b1 \<Rightarrow>
             Inr (r\<lparr>dedup := d1, buffer := b1,
                    store := (\<lambda>cl. if cl |\<in>| clients r
                                    then SendData (store r cl) data else store r cl)\<rparr>))"

text \<open>A run of the router: packets arriving from clients and from the mesh, in any order.\<close>

datatype ingress = FromClient nat bytes | FromMesh bytes

fun payload_of :: "ingress \<Rightarrow> bytes" where
  "payload_of (FromClient sender data) = data"
| "payload_of (FromMesh data) = data"

fun route :: "crypto \<Rightarrow> Router \<Rightarrow> ingress \<Rightarrow> panic + Router" where
  "route c r (FromClient sender data) = RouteFromClient c r sender data"
| "route c r (FromMesh data) = RouteFromMesh c r data"

fun route_all :: "crypto \<Rightarrow> Router \<Rightarrow> ingress list \<Rightarrow> panic + Router" where
  "route_all c r [] = Inr r"
| "route_all c r (x # xs) =
     (case route c r x of Inl e \<Rightarrow> Inl e | Inr r1 \<Rightarrow> route_all c r1 xs)"


section \<open>A stand-in for the library, for concrete instances\<close>

text \<open>
  The theorems are stated for every \<open>crypto\<close>. Their instances at concrete inputs need
  one: \<open>demo_crypto\<close> hashes a message to its reversal, cut or zero-padded to 32 bytes,
  and signs a message with the first 64 bytes of key and message.
\<close>

definition demo_crypto :: crypto where
  "demo_crypto = \<lparr>Sum256 = (\<lambda>x. take 32 (rev x @ replicate 32 0)),
                   ed25519_Sign = (\<lambda>priv msg. take 64 (priv @ msg @ replicate 64 0)),
                   ed25519_Verify = (\<lambda>pub msg sig. sig = take 64 (pub @ pub @ msg @ replicate 64 0))\<rparr>"

text \<open>
  A relay with an open mesh (no CA key, nothing revoked), its link, a peer with another
  key, and a datagram of the peer in the open layout, payload \<open>[7]\<close>, with a signature
  \<open>demo_crypto\<close> accepts.
\<close>

definition demo_auth :: RelayAuth where
  "demo_auth = \<lparr>PrivateKey = replicate 64 1, PublicKey = replicate 32 1, Certificate = [],
                 CAPubKey = None, revokedKeys = (\<lambda>_. False), crlPath = [], crlModTime = 0,
                 certCache = (\<lambda>_. False)\<rparr>"

definition demo_link :: MeshLink where
  "demo_link = \<lparr>auth = Some demo_auth, router_set = True, sent = []\<rparr>"

definition demo_peer_auth :: RelayAuth where
  "demo_peer_auth = demo_auth\<lparr>PrivateKey := replicate 64 5, PublicKey := replicate 32 5\<rparr>"

definition demo_datagram :: bytes where
  "demo_datagram = replicate 96 5 @ [7]"

text \<open>
  Sixty-five one-byte packets \<open>[0]\<close>, \<dots>, \<open>[64]\<close>, and a router with a buffer of capacity 3,
  two sessions and the link above.
\<close>

definition demo_packets :: "bytes list" where
  "demo_packets = map (\<lambda>i. [of_nat i]) [0..<65]"

definition demo_router :: Router where
  "demo_router = \<lparr>clients = {|1, 2|}, store = (\<lambda>_. NewClient), mesh = Some demo_link,
                   buffer = \<lparr>packets = [None, None, None], size_pb = 3, head = 0, count = 0\<rparr>,
                   dedup = NewDedupFilter 10\<rparr>"

text \<open>
  \<^verbatim>\<open>TrimSpace\<close> and \<^verbatim>\<open>ToLower\<close> as they act on ASCII strings.
\<close>

definition isSpace :: "char \<Rightarrow> bool" where
  "isSpace ch = ((of_char ch :: nat) \<in> {9, 10, 11, 12, 13, 32})"

definition demo_strings :: strings_pkg where
  "demo_strings =
     \<lparr>TrimSpace = (\<lambda>s. rev (dropWhile isSpace (rev (dropWhile isSpace s)))),
      ToLower = map (\<lambda>ch. let n = (of_char ch :: nat)
                          in if 65 \<le> n \<and> n \<le> 90 then char_of (n + 32) else ch)\<rparr>"

text \<open>
  An environment in which the key file exists and holds three bytes; directories can be
  made, files written, and the random source yields a keypair.
\<close>

definition demo_world :: world where
  "demo_world = \<lparr>files = [''/etc/bitchat/relay_ed25519.key'' \<mapsto> [1, 2, 3]],
                  modtime = (\<lambda>_. 0), mkdir_ok = True, write_ok = True,
                  rand_key = Some (replicate 32 7, replicate 32 8 @ replicate 32 7)\<rparr>"

section \<open>Invariants used in the proofs\<close>

text \<open>
  The state of a ring buffer of capacity \<open>n\<close> after the packets \<open>xs\<close> were added, in this
  order: the write head is at \<open>length xs mod n\<close>, and the packet added at position \<open>j\<close>
  sits in slot \<open>j mod n\<close> as long as fewer than \<open>n\<close> packets came after it.
\<close>

definition ring_inv :: "nat \<Rightarrow> bytes list \<Rightarrow> PacketBuffer \<Rightarrow> bool" where
  "ring_inv n xs pb \<longleftrightarrow>
     0 < n \<and> size_pb pb = int n \<and> length (packets pb) = n \<and>
     head pb = int (length xs mod n) \<and> count pb = int (min (length xs) n) \<and>
     (\<forall>j < length xs. length xs \<le> j + n \<longrightarrow> packets pb ! (j mod n) = Some (xs ! j))"

section \<open>The ring buffer keeps the most recent packets\<close>

lemma smod_nonneg: "0 \<le> a \<Longrightarrow> 0 < b \<Longrightarrow> (a::int) smod b = a mod b"
  by (simp add: smod_int_alt_def sgn_if)

lemma ring_inv_New:
  "0 < n \<Longrightarrow> \<exists>pb. NewPacketBuffer (int n) = Inr pb \<and> ring_inv n [] pb"
  by (simp add: NewPacketBuffer_def ring_inv_def)

lemma ring_inv_Add:
  assumes "ring_inv n xs pb"
  shows "\<exists>pb'. Add pb x = Inr pb' \<and> ring_inv n (xs @ [x]) pb'"
proof -
  from assms have n: "0 < n" and sz: "size_pb pb = int n" and len: "length (packets pb) = n"
    and hd: "head pb = int (length xs mod n)" and cnt: "count pb = int (min (length xs) n)"
    and el: "\<And>j. j < length xs \<Longrightarrow> length xs \<le> j + n \<Longrightarrow> packets pb ! (j mod n) = Some (xs ! j)"
    by (auto simp: ring_inv_def)
  let ?pb' = "pb\<lparr>packets := (packets pb)[length xs mod n := Some x],
                    head := int (Suc (length xs) mod n),
                    count := int (min (Suc (length xs)) n)\<rparr>"
  have h1: "(head pb + 1) smod size_pb pb = int (Suc (length xs) mod n)"
  proof -
    have "(head pb + 1) smod size_pb pb = (int (length xs mod n) + 1) mod int n"
      using n by (simp add: hd sz smod_nonneg)
    also have "\<dots> = int ((length xs mod n + 1) mod n)"
      by (simp add: zmod_int add.commute)
    also have "\<dots> = int (Suc (length xs) mod n)"
      by (simp add: mod_Suc_eq)
    finally show ?thesis .
  qed
  have h2: "(if count pb < size_pb pb then count pb + 1 else count pb) = int (min (Suc (length xs)) n)"
    by (auto simp: cnt sz min_def)
  have add: "Add pb x = Inr ?pb'"
    unfolding Add_def Let_def h1 h2 using n by (simp add: hd len sz copy_bytes_def)
  have "ring_inv n (xs @ [x]) ?pb'"
    unfolding ring_inv_def
  proof (intro conjI allI impI)
    fix j assume j: "j < length (xs @ [x])" and w: "length (xs @ [x]) \<le> j + n"
    show "packets ?pb' ! (j mod n) = Some ((xs @ [x]) ! j)"
    proof (cases "j = length xs")
      case True
      then show ?thesis using n by (simp add: len)
    next
      case False
      with j have jl: "j < length xs" by simp
      from w have w': "length xs \<le> j + n" by simp
      have ne: "j mod n \<noteq> length xs mod n"
      proof
        assume e: "j mod n = length xs mod n"
        have "(length xs - j) mod n = 0"
          using jl e by (metis mod_eq_dvd_iff_nat less_imp_le_nat dvd_imp_mod_0)
        moreover have "0 < length xs - j" "length xs - j < n" using jl w by auto
        ultimately show False by simp
      qed
      show ?thesis using ne jl el[OF jl w'] by (simp add: nth_append)
    qed
  qed (use n sz len in simp_all)
  with add show ?thesis by blast
qed

lemma GetAll_loop_inv:
  assumes inv: "ring_inv n xs pb"
    and st: "\<And>i. 0 \<le> i \<Longrightarrow> i < count pb \<Longrightarrow>
        (start + i) mod int n = int ((length xs - nat (count pb) + nat i) mod n)"
    and st0: "0 \<le> start"
  shows "0 \<le> i \<Longrightarrow> i \<le> count pb \<Longrightarrow> nat (count pb - i) = m \<Longrightarrow>
    GetAll_loop pb start i res =
         Inr (res @ map (\<lambda>m. xs ! (length xs - nat (count pb) + m)) [nat i..<nat (count pb)])"
proof (induction m arbitrary: i res)
  case 0
  then have "\<not> i < count pb" "nat i = nat (count pb)" by simp_all
  then show ?case by (subst GetAll_loop.simps) simp
next
  case (Suc m)
  from inv have n: "0 < n" and sz: "size_pb pb = int n" and len: "length (packets pb) = n"
    and cnt: "count pb = int (min (length xs) n)"
    and el: "\<And>j. j < length xs \<Longrightarrow> length xs \<le> j + n \<Longrightarrow> packets pb ! (j mod n) = Some (xs ! j)"
    by (auto simp: ring_inv_def)
  from Suc.prems have lt: "i < count pb" by simp
  let ?j = "length xs - nat (count pb) + nat i"
  have idx: "(start + i) smod size_pb pb = int (?j mod n)"
    using Suc.prems(1) st0 n lt by (simp add: sz smod_nonneg st)
  have jl: "?j < length xs" "length xs \<le> ?j + n"
    using lt Suc.prems(1) cnt by (auto simp: min_def split: if_splits)
  have pk: "packets pb ! (?j mod n) = Some (xs ! ?j)" by (rule el[OF jl])
  have szn: "size_pb pb \<noteq> 0" using n sz by simp
  have rng: "?j mod n < length (packets pb)"
    using n by (simp add: len)
  have IH: "GetAll_loop pb start (i + 1) (res @ [xs ! ?j]) =
       Inr ((res @ [xs ! ?j]) @ map (\<lambda>m. xs ! (length xs - nat (count pb) + m)) [nat (i + 1)..<nat (count pb)])"
    by (rule Suc.IH) (use Suc.prems in auto)
  have s: "nat (i + 1) = Suc (nat i)" using Suc.prems(1) by arith
  have l: "nat i < nat (count pb)" using lt Suc.prems(1) by arith
  have up: "[nat i..<nat (count pb)] = nat i # [nat (i + 1)..<nat (count pb)]"
    unfolding s by (rule upt_conv_Cons[OF l])
  have "GetAll_loop pb start i res = GetAll_loop pb start (i + 1) (res @ [xs ! ?j])"
    by (subst GetAll_loop.simps) (simp add: lt szn Let_def idx rng pk)
  then show ?case by (simp only: IH up) simp
qed

lemma ring_inv_GetAll:
  assumes "ring_inv n xs pb"
  shows "GetAll pb = Inr (drop (length xs - n) xs)"
proof -
  from assms have n: "0 < n" and sz: "size_pb pb = int n"
    and hd: "head pb = int (length xs mod n)" and cnt: "count pb = int (min (length xs) n)"
    by (auto simp: ring_inv_def)
  let ?k = "length xs"
  define start where "start = (if head pb - count pb < 0 then head pb - count pb + size_pb pb else head pb - count pb)"
  have st0: "0 \<le> start"
    using n by (auto simp: start_def hd cnt sz min_def)
  have stm: "(start + i) mod int n = int ((?k - nat (count pb) + nat i) mod n)" if "0 \<le> i" "i < count pb" for i
  proof (cases "?k \<le> n")
    case True
    then have "start = 0"
      using n by (cases "?k = n") (simp_all add: start_def hd cnt sz)
    with True that show ?thesis by (simp add: cnt zmod_int)
  next
    case False
    then have c: "count pb = int n" by (simp add: cnt)
    have "head pb - count pb < 0" using n by (simp add: hd c)
    then have s: "start = int (?k mod n)" by (simp add: start_def c sz hd)
    have "(start + i) mod int n = (int (?k mod n) + int (nat i)) mod int n" using that s by simp
    also have "\<dots> = int ((?k mod n + nat i) mod n)" by (simp add: zmod_int)
    also have "\<dots> = int ((?k + nat i) mod n)" by (simp add: mod_add_left_eq)
    also have "\<dots> = int ((?k - n + nat i) mod n)"
    proof -
      have "?k + nat i = (?k - n + nat i) + n" using False by simp
      then show ?thesis by (metis mod_add_self2)
    qed
    finally show ?thesis by (simp add: c)
  qed
  have "GetAll_loop pb start 0 [] =
     Inr ([] @ map (\<lambda>m. xs ! (?k - nat (count pb) + m)) [nat 0..<nat (count pb)])"
    by (rule GetAll_loop_inv[OF assms stm st0]) (simp_all add: cnt)
  moreover have "map (\<lambda>m. xs ! (?k - nat (count pb) + m)) [0..<nat (count pb)] = drop (?k - n) xs"
    by (rule nth_equalityI) (auto simp: cnt min_def)
  moreover have "\<not> count pb < 0" by (simp add: cnt)
  then have "GetAll pb = GetAll_loop pb start 0 []"
    unfolding GetAll_def Let_def start_def by (simp only: if_False)
  ultimately show ?thesis
    by simp
qed


lemma ring_inv_Add_all:
  "ring_inv n xs pb \<Longrightarrow> \<exists>pb'. Add_all pb ys = Inr pb' \<and> ring_inv n (xs @ ys) pb'"
proof (induction ys arbitrary: xs pb)
  case Nil
  then show ?case by simp
next
  case (Cons y ys)
  from ring_inv_Add[OF Cons.prems, of y]
  obtain pb1 where a: "Add pb y = Inr pb1" and i: "ring_inv n (xs @ [y]) pb1" by blast
  from Cons.IH[OF i] show ?case using a by simp
qed

text \<open>
  C8. A ring buffer of capacity \<open>N\<close> (at least 1: \<^verbatim>\<open>Add\<close> advances the head modulo \<open>N\<close>),
  after the \<open>k\<close> calls \<open>Add p\<^sub>1\<close>, \<dots>, \<open>Add p\<^sub>k\<close>, holds \<open>min k N\<close> entries, and \<open>GetAll\<close>
  returns the last \<open>min k N\<close> of the packets, oldest first: the list \<open>p\<^sub>1 \<dots> p\<^sub>k\<close> without
  its first \<open>k - N\<close> elements. No call panics.
\<close>

theorem C8_ring_buffer_most_recent:
  assumes "0 < N"
  shows "\<exists>pb0 pb. NewPacketBuffer N = Inr pb0 \<and> Add_all pb0 ps = Inr pb \<and>
           count pb = min (int (length ps)) N \<and>
           GetAll pb = Inr (drop (length ps - nat N) ps)"
proof -
  from assms have n: "0 < nat N" and N: "int (nat N) = N" by simp_all
  from ring_inv_New[OF n] obtain pb0
    where new: "NewPacketBuffer N = Inr pb0" and i0: "ring_inv (nat N) [] pb0"
    unfolding N by blast
  from ring_inv_Add_all[OF i0, of ps] obtain pb
    where add: "Add_all pb0 ps = Inr pb" and i: "ring_inv (nat N) ps pb" by auto
  from i have "count pb = int (min (length ps) (nat N))"
    by (simp add: ring_inv_def)
  then have "count pb = min (int (length ps)) N"
    using assms by (simp add: min_def) arith
  with new add ring_inv_GetAll[OF i] show ?thesis by blast
qed

theorem C8_ring_buffer_witness:
  "(0::int) < 3 \<and>
   (\<exists>pb0 pb. NewPacketBuffer 3 = Inr pb0 \<and> Add_all pb0 [[1], [2], [3], [4]] = Inr pb \<and>
      count pb = 3 \<and> GetAll pb = Inr [[2], [3], [4]])"
  using C8_ring_buffer_most_recent[of 3 "[[1], [2], [3], [4]]"] by simp


section \<open>Proof of work: the check counts leading zero bits\<close>

lemma zero_bytes_loop_eq:
  "unat full \<le> length hash \<Longrightarrow> i \<le> full \<Longrightarrow> unat full - unat i = m \<Longrightarrow>
   zero_bytes_loop hash i full = Inr (\<forall>k. unat i \<le> k \<and> k < unat full \<longrightarrow> hash ! k = 0)"
proof (induction m arbitrary: i)
  case 0
  then have "unat full \<le> unat i" by simp
  moreover from 0 have "unat i \<le> unat full" by (simp add: word_le_nat_alt)
  ultimately have "\<not> i < full" by (simp add: word_less_nat_alt)
  then show ?case using \<open>unat full \<le> unat i\<close>
    by (subst zero_bytes_loop.simps) auto
next
  case (Suc m)
  then have lt: "i < full" by (simp add: word_less_nat_alt)
  have "i + 1 \<noteq> 0"
  proof
    assume "i + 1 = 0"
    then have "i = - 1" by (simp add: eq_neg_iff_add_eq_0)
    with lt show False by simp
  qed
  then have s: "unat (i + 1) = Suc (unat i)" by (simp add: unatSuc add.commute)
  have ul: "unat i < unat full" using lt by (simp add: word_less_nat_alt)
  then have le: "i + 1 \<le> full" using s by (simp add: word_le_nat_alt)
  have IH: "zero_bytes_loop hash (i + 1) full =
      Inr (\<forall>k. unat (i + 1) \<le> k \<and> k < unat full \<longrightarrow> hash ! k = 0)"
    by (rule Suc.IH[OF Suc.prems(1) le]) (use Suc.prems s in simp)
  have rng: "unat i < length hash" using ul Suc.prems(1) by simp
  show ?case
  proof (cases "hash ! unat i = 0")
    case False
    then have "zero_bytes_loop hash i full = Inr False"
      by (subst zero_bytes_loop.simps) (simp add: lt rng)
    moreover have "\<not> (\<forall>k. unat i \<le> k \<and> k < unat full \<longrightarrow> hash ! k = 0)"
      using False ul by auto
    ultimately show ?thesis by simp
  next
    case True
    then have "zero_bytes_loop hash i full = zero_bytes_loop hash (i + 1) full"
      by (subst zero_bytes_loop.simps) (simp add: lt rng)
    moreover have "(\<forall>k. unat i \<le> k \<and> k < unat full \<longrightarrow> hash ! k = 0)
        \<longleftrightarrow> (\<forall>k. Suc (unat i) \<le> k \<and> k < unat full \<longrightarrow> hash ! k = 0)"
      using True by (metis Suc_leI le_neq_implies_less Suc_leD)
    ultimately show ?thesis using IH s by simp
  qed
qed

lemma byte_zero_iff: "(b :: byte) = 0 \<longleftrightarrow> (\<forall>m<8. \<not> bit b (7 - m))"
proof
  assume "\<forall>m<8. \<not> bit b (7 - m)"
  have "\<not> bit b k" for k
  proof (cases "k < 8")
    case True
    then have "7 - (7 - k) = k" "7 - k < 8" by auto
    with \<open>\<forall>m<8. \<not> bit b (7 - m)\<close> show ?thesis by metis
  next
    case False
    then show ?thesis using bit_imp_le_length[of b k] by auto
  qed
  then show "b = 0" by (simp add: bit_eq_iff)
qed simp

lemma byte_mask_iff:
  assumes "0 < r" "r < 8"
  shows "(b :: byte) AND push_bit (8 - r) 0xFF = 0 \<longleftrightarrow> (\<forall>m<r. \<not> bit b (7 - m))"
proof -
  have m: "bit (push_bit (8 - r) (0xFF :: byte)) k \<longleftrightarrow> 8 - r \<le> k \<and> k < 8" for k
  proof -
    have ff: "(0xFF :: byte) = - 1" by simp
    show ?thesis by (subst ff) (auto simp: bit_simps)
  qed
  have "b AND push_bit (8 - r) 0xFF = 0 \<longleftrightarrow> (\<forall>k. \<not> (bit b k \<and> 8 - r \<le> k \<and> k < 8))"
    by (simp add: bit_eq_iff bit_and_iff m) blast
  also have "\<dots> \<longleftrightarrow> (\<forall>m<r. \<not> bit b (7 - m))"
  proof
    assume a: "\<forall>k. \<not> (bit b k \<and> 8 - r \<le> k \<and> k < 8)"
    show "\<forall>m<r. \<not> bit b (7 - m)"
    proof (intro allI impI)
      fix m assume "m < r"
      then have "8 - r \<le> 7 - m" "7 - m < 8" using assms by auto
      with a show "\<not> bit b (7 - m)" by blast
    qed
  next
    assume a: "\<forall>m<r. \<not> bit b (7 - m)"
    show "\<forall>k. \<not> (bit b k \<and> 8 - r \<le> k \<and> k < 8)"
    proof (intro allI notI)
      fix k assume k: "bit b k \<and> 8 - r \<le> k \<and> k < 8"
      then have "7 - k < r" "7 - (7 - k) = k" using assms by auto
      with a k show False by metis
    qed
  qed
  finally show ?thesis .
qed

lemma takeWhile_length_ge:
  "n \<le> length (takeWhile P xs) \<longleftrightarrow> n \<le> length xs \<and> (\<forall>i<n. P (xs ! i))"
proof (induction xs arbitrary: n)
  case Nil
  then show ?case by auto
next
  case (Cons x xs)
  show ?case
  proof (cases n)
    case 0
    then show ?thesis by simp
  next
    case (Suc k)
    show ?thesis
    proof (cases "P x")
      case True
      have "(\<forall>i<Suc k. P ((x # xs) ! i)) \<longleftrightarrow> (\<forall>i<k. P (xs ! i))"
        using True by (auto simp: nth_Cons' less_Suc_eq_0_disj)
      then show ?thesis using True Suc Cons.IH[of k] by simp
    next
      case False
      then show ?thesis using Suc by auto
    qed
  qed
qed

lemma bits_nth:
  "j < 8 * length h \<Longrightarrow> concat (map bits_of_byte h) ! j = bit (h ! (j div 8)) (7 - j mod 8)"
proof (induction h arbitrary: j)
  case Nil
  then show ?case by simp
next
  case (Cons b h)
  have len: "length (bits_of_byte b) = 8" by (simp add: bits_of_byte_def)
  show ?case
  proof (cases "j < 8")
    case True
    then have "bits_of_byte b ! j = bit b (7 - j)"
      by (simp add: bits_of_byte_def del: upt_Suc)
    with True show ?thesis by (simp add: nth_append len)
  next
    case False
    then have j8: "j - 8 < 8 * length h" using Cons.prems by simp
    have d: "j div 8 = Suc ((j - 8) div 8)" "j mod 8 = (j - 8) mod 8"
      using False by (simp_all add: le_div_geq le_mod_geq)
    show ?thesis using False Cons.IH[OF j8] by (simp add: nth_append len d)
  qed
qed

lemma bits_length: "length (concat (map bits_of_byte h)) = 8 * length h"
  by (induction h) (simp_all add: bits_of_byte_def)


lemma leading_bits_split:
  "(\<forall>j < 8 * f + r. \<not> bit (h ! (j div 8)) (7 - j mod 8)) \<longleftrightarrow>
   (\<forall>k<f. \<forall>m<8. \<not> bit ((h :: bytes) ! k) (7 - m)) \<and> (\<forall>m<r. \<not> bit (h ! f) (7 - m))"
  if "r < 8"
proof (intro iffI conjI allI impI)
  fix k m assume a: "\<forall>j < 8 * f + r. \<not> bit (h ! (j div 8)) (7 - j mod 8)" and "k < f" "m < (8::nat)"
  then have "8 * k + m < 8 * f + r" "(8 * k + m) div 8 = k" "(8 * k + m) mod 8 = m" by auto
  with a show "\<not> bit (h ! k) (7 - m)" by metis
next
  fix m assume a: "\<forall>j < 8 * f + r. \<not> bit (h ! (j div 8)) (7 - j mod 8)" and "m < r"
  then have "8 * f + m < 8 * f + r" "(8 * f + m) div 8 = f" "(8 * f + m) mod 8 = m"
    using that by auto
  with a show "\<not> bit (h ! f) (7 - m)" by metis
next
  fix j
  assume a: "(\<forall>k<f. \<forall>m<8. \<not> bit (h ! k) (7 - m)) \<and> (\<forall>m<r. \<not> bit (h ! f) (7 - m))"
    and j: "j < 8 * f + r"
  show "\<not> bit (h ! (j div 8)) (7 - j mod 8)"
  proof (cases "j div 8 < f")
    case True
    with a show ?thesis by simp
  next
    case False
    with j that have d: "j div 8 = f" by auto
    have "j mod 8 < r" using j d mult_div_mod_eq[of 8 j] by linarith
    with a d show ?thesis by simp
  qed
qed

lemma hasLeadingZeros_iff:
  assumes len: "length h = 32"
  shows "hasLeadingZeros h n = Inr (unat n \<le> leading_zero_bits h)"
proof -
  define f where "f = unat n div 8"
  define r where "r = unat n mod 8"
  have uf: "unat (n div 8) = f" by (simp add: f_def unat_div)
  have ur: "unat (n mod 8) = r" by (simp add: r_def unat_mod)
  have r8: "r < 8" by (simp add: r_def)
  have n256: "unat n < 256" using unsigned_less[of n, where 'a = nat] by simp
  then have f32: "f < 32" by (simp add: f_def)
  have n: "unat n = 8 * f + r" by (simp add: f_def r_def)
  have loop: "zero_bytes_loop h 0 (n div 8) = Inr (\<forall>k<f. h ! k = 0)"
    using zero_bytes_loop_eq[of "n div 8" h 0 f] f32 by (simp add: uf len)
  have rpos: "n mod 8 > 0 \<longleftrightarrow> 0 < r"
    using ur by (metis unat_gt_0 word_gt_0)
  have "n mod 8 \<le> 8" using ur r8 by (simp add: word_le_nat_alt)
  then have um: "unat (8 - n mod 8) = 8 - r"
    using ur by (simp add: unat_sub)
  have fl: "unat (n div 8) < length h" using f32 by (simp add: uf len)
  have "hasLeadingZeros h n =
      Inr ((\<forall>k<f. h ! k = 0) \<and> (0 < r \<longrightarrow> h ! f AND push_bit (8 - r) 0xFF = 0))"
    unfolding hasLeadingZeros_def Let_def loop
    using fl by (simp add: rpos um uf split: bool.splits)
  also have "((\<forall>k<f. h ! k = 0) \<and> (0 < r \<longrightarrow> h ! f AND push_bit (8 - r) 0xFF = 0))
      \<longleftrightarrow> (\<forall>k<f. \<forall>m<8. \<not> bit (h ! k) (7 - m)) \<and> (\<forall>m<r. \<not> bit (h ! f) (7 - m))"
    using byte_mask_iff[of r "h ! f"] r8 by (cases "r = 0") (simp_all add: byte_zero_iff)
  also have "\<dots> \<longleftrightarrow> (\<forall>j < unat n. \<not> bit (h ! (j div 8)) (7 - j mod 8))"
    unfolding n by (rule leading_bits_split[OF r8, symmetric])
  also have "\<dots> \<longleftrightarrow> unat n \<le> leading_zero_bits h"
  proof -
    have nl: "unat n \<le> 8 * length h" using n256 by (simp add: len)
    have "(\<forall>j < unat n. \<not> bit (h ! (j div 8)) (7 - j mod 8))
        \<longleftrightarrow> (\<forall>j < unat n. \<not> concat (map bits_of_byte h) ! j)"
      using nl by (auto simp: bits_nth)
    then show ?thesis
      using nl by (simp add: leading_zero_bits_def takeWhile_length_ge bits_length)
  qed
  finally show ?thesis .
qed

lemma SolvePoW_loop_sound:
  "SolvePoW_loop c nonce d sol = Inr s \<Longrightarrow>
   hasLeadingZeros (Sum256 c (pow_buf nonce s)) d = Inr True"
proof (induction c nonce d sol rule: SolvePoW_loop.induct)
  case (1 c nonce difficulty sol)
  show ?case
  proof (cases "hasLeadingZeros (Sum256 c (pow_buf nonce sol)) difficulty")
    case (Inl e)
    with "1.prems" show ?thesis by (subst (asm) SolvePoW_loop.simps) simp
  next
    case (Inr b)
    show ?thesis
    proof (cases b)
      case True
      with Inr "1.prems" have "s = sol" by (subst (asm) SolvePoW_loop.simps) simp
      with Inr True show ?thesis by simp
    next
      case False
      with Inr "1.prems" have ne: "sol \<noteq> NOT 0"
        and rec: "SolvePoW_loop c nonce difficulty (sol + 1) = Inr s"
        by (subst (asm) SolvePoW_loop.simps, simp split: if_splits)+
      from "1.IH"[OF _ _ ne rec] Inr False show ?thesis by simp
    qed
  qed
qed

lemma Uint64_PutUint64: "Uint64 (PutUint64 v) = v"
proof (rule bit_word_eqI)
  fix n assume "n < LENGTH(64)"
  then have n: "n < 64" by simp
  consider "n < 8" | "8 \<le> n" "n < 16" | "16 \<le> n" "n < 24" | "24 \<le> n" "n < 32"
    | "32 \<le> n" "n < 40" | "40 \<le> n" "n < 48" | "48 \<le> n" "n < 56" | "56 \<le> n" "n < 64"
    using n by linarith
  then show "bit (Uint64 (PutUint64 v)) n = bit v n"
    by cases (simp_all add: Uint64_def PutUint64_def bit_simps, auto)
qed

lemma length_PutUint64: "length (PutUint64 v) = 8"
  by (simp add: PutUint64_def)

lemma pow_buf_32: "length nonce = 32 \<Longrightarrow> pow_buf nonce s = nonce @ PutUint64 s"
  by (simp add: pow_buf_def copy_bytes_def)

text \<open>
  C6. For every 32-byte nonce \<open>n\<close>, difficulty \<open>d\<close> and 64-bit solution \<open>s\<close>,
  \<open>VerifyPoW n s d\<close> returns true exactly when the hash of \<open>n\<close> followed by the 8-byte
  big-endian encoding of \<open>s\<close> has at least \<open>d\<close> leading zero bits, counted from the most
  significant bit of byte 0; it never panics. The encoding is the eight bytes that
  \<open>Uint64\<close> reads back as \<open>s\<close>. Whenever \<open>SolvePoW n d\<close> returns a solution,
  \<open>VerifyPoW\<close> accepts it. The hash function is any function with 32-byte results.
\<close>

theorem C6_VerifyPoW_leading_zero_bits:
  assumes "length nonce = 32" and "\<forall>x. length (Sum256 c x) = 32"
  shows "VerifyPoW c nonce s d = Inr (unat d \<le> leading_zero_bits (Sum256 c (nonce @ PutUint64 s))) \<and>
         length (PutUint64 s) = 8 \<and> Uint64 (PutUint64 s) = s \<and>
         (\<forall>s'. SolvePoW c nonce d = Inr s' \<longrightarrow> VerifyPoW c nonce s' d = Inr True)"
proof (intro conjI)
  show "VerifyPoW c nonce s d = Inr (unat d \<le> leading_zero_bits (Sum256 c (nonce @ PutUint64 s)))"
    using assms by (simp add: VerifyPoW_def pow_buf_32 hasLeadingZeros_iff)
  show "length (PutUint64 s) = 8" by (rule length_PutUint64)
  show "Uint64 (PutUint64 s) = s" by (rule Uint64_PutUint64)
  show "\<forall>s'. SolvePoW c nonce d = Inr s' \<longrightarrow> VerifyPoW c nonce s' d = Inr True"
    by (auto simp: SolvePoW_def VerifyPoW_def dest: SolvePoW_loop_sound)
qed

theorem C6_VerifyPoW_witness:
  "length (replicate 32 (0::byte)) = 32 \<and> (\<forall>x. length (Sum256 demo_crypto x) = 32) \<and>
   VerifyPoW demo_crypto (replicate 32 0) 256 15 = Inr True \<and>
   VerifyPoW demo_crypto (replicate 32 0) 256 16 = Inr False"
proof -
  have l: "length (replicate 32 (0::byte)) = 32" by simp
  have h: "\<forall>x. length (Sum256 demo_crypto x) = 32" by (auto simp: demo_crypto_def)
  have z: "leading_zero_bits (Sum256 demo_crypto (replicate 32 0 @ PutUint64 256)) = 15"
    by code_simp
  from C6_VerifyPoW_leading_zero_bits[OF l h, of 256 15]
       C6_VerifyPoW_leading_zero_bits[OF l h, of 256 16] l h
  show ?thesis by (simp add: z)
qed


section \<open>Frames: reading what was written\<close>

lemma Uint32_PutUint32: "Uint32 (PutUint32 v) = v"
proof (rule bit_word_eqI)
  fix n assume "n < LENGTH(32)"
  then have n: "n < 32" by simp
  consider "n < 8" | "8 \<le> n" "n < 16" | "16 \<le> n" "n < 24" | "24 \<le> n" "n < 32"
    using n by linarith
  then show "bit (Uint32 (PutUint32 v)) n = bit v n"
    by cases (auto simp: Uint32_def PutUint32_def bit_simps)
qed

lemma length_PutUint32: "length (PutUint32 w) = 4"
  by (simp add: PutUint32_def)

lemma WriteFrame_eq: "WriteFrame t p = t # PutUint32 (of_nat (length p)) @ p"
  by (simp add: WriteFrame_def copy_bytes_def)

lemma int_of_uint32_small:
  assumes "uint v \<le> MaxInt target"
  shows "int_of_uint32 target v = uint v"
proof (cases target)
  case Arch64
  then show ?thesis by simp
next
  case Arch32
  with assms have lt: "uint v < 2 ^ 31" by simp
  have ge: "- (2 ^ 31) \<le> uint v" by (rule order_trans[of _ 0]) simp_all
  have "signed_take_bit 31 (uint v) = uint v"
    by (rule signed_take_bit_int_eq_self[OF ge lt])
  then show ?thesis using Arch32 by (simp add: sint_uint)
qed

lemma ReadFrame_WriteFrame:
  assumes "length p < 2 ^ 32" and "int (length p) \<le> maxPayload" and "int (length p) \<le> MaxInt target"
  shows "ReadFrame target (WriteFrame t p @ rest) maxPayload = Inr (\<lparr>Type = t, Payload = p\<rparr>, rest)"
proof -
  define v :: "32 word" where "v = of_nat (length p)"
  have un: "unat v = length p" using assms(1) by (simp add: v_def unat_of_nat)
  have ui: "uint v = int (length p)" using un by (metis uint_nat)
  have ii: "int_of_uint32 target v = int (length p)"
    using int_of_uint32_small[of v target] assms(3) by (simp add: ui)
  have hdr: "ReadFull (WriteFrame t p @ rest) 5 = Some (t # PutUint32 v, p @ rest)"
    by (simp add: ReadFull_def WriteFrame_eq v_def length_PutUint32)
  have sl: "subslice (t # PutUint32 v) (Suc 0) 5 = PutUint32 v"
    by (simp add: subslice_def length_PutUint32)
  have pos: "v > 0 \<longleftrightarrow> p \<noteq> []"
    using un by (metis length_greater_0_conv unat_gt_0 word_gt_0)
  show ?thesis
    unfolding ReadFrame_def hdr
    using assms(2,3) by (simp add: Let_def sl Uint32_PutUint32 ii ui un pos ReadFull_def)
qed

text \<open>
  C7. For every frame type \<open>t\<close> and payload \<open>p\<close> of at most \<open>MaxPacketSize\<close> bytes,
  \<open>ReadFrame\<close> on the bytes that \<open>WriteFrame t p\<close> produces, followed by anything,
  returns the frame \<open>(t, p)\<close> and leaves what follows unread, on the 32-bit and on the
  64-bit build targets. \<open>MaxPacketSize\<close> is below \<open>2\<^sup>3\<^sup>2\<close>, so that every admitted length
  fits the four length bytes of a frame, and it is a value of the target's \<^verbatim>\<open>int\<close>, as
  the parameter type of \<^verbatim>\<open>ReadFrame\<close> requires.
\<close>

theorem C7_frame_round_trip:
  assumes "maxPayload < 2 ^ 32" and "maxPayload \<le> MaxInt target" and "int (length p) \<le> maxPayload"
  shows "ReadFrame target (WriteFrame t p @ rest) maxPayload = Inr (\<lparr>Type = t, Payload = p\<rparr>, rest)"
proof -
  from assms have "int (length p) < 2 ^ 32" by linarith
  then have "length p < 2 ^ 32" by (metis of_nat_less_iff of_nat_numeral of_nat_power)
  moreover from assms have "int (length p) \<le> MaxInt target" by linarith
  ultimately show ?thesis using assms(3) by (intro ReadFrame_WriteFrame)
qed

theorem C7_frame_round_trip_witness:
  "MaxPacketSize DefaultConfig < 2 ^ 32 \<and> MaxPacketSize DefaultConfig \<le> MaxInt Arch32 \<and>
   MaxPacketSize DefaultConfig \<le> MaxInt Arch64 \<and>
   int (length [1, 2, 3 :: byte]) \<le> MaxPacketSize DefaultConfig \<and>
   ReadFrame Arch32 (WriteFrame FrameData [1, 2, 3] @ [9]) (MaxPacketSize DefaultConfig)
     = Inr (\<lparr>Type = FrameData, Payload = [1, 2, 3]\<rparr>, [9]) \<and>
   ReadFrame Arch64 (WriteFrame FrameData [1, 2, 3] @ [9]) (MaxPacketSize DefaultConfig)
     = Inr (\<lparr>Type = FrameData, Payload = [1, 2, 3]\<rparr>, [9])"
  using C7_frame_round_trip[of "MaxPacketSize DefaultConfig" Arch32 "[1, 2, 3]" FrameData "[9]"]
        C7_frame_round_trip[of "MaxPacketSize DefaultConfig" Arch64 "[1, 2, 3]" FrameData "[9]"]
  by (simp add: DefaultConfig_def)


section \<open>Deduplication: hashes and the filter\<close>

lemma PacketHash_eq: "8 \<le> length (Sum256 c p) \<Longrightarrow> PacketHash c p = take 8 (Sum256 c p)"
  by (simp add: PacketHash_def copy_bytes_def Let_def)

lemma IsDuplicate_present: "h |\<in>| seen d \<Longrightarrow> IsDuplicate d h = (True, d)"
  by (simp add: IsDuplicate_def)

lemma IsDuplicate_absent:
  "h |\<notin>| seen d \<Longrightarrow> IsDuplicate d h =
     (False, d\<lparr>seen := finsert h (if max_df d \<le> int (fcard (seen d)) then {||} else seen d)\<rparr>)"
  by (simp add: IsDuplicate_def Let_def)

lemma IsDuplicate_inserts: "h |\<in>| seen (snd (IsDuplicate d h))"
  by (simp add: IsDuplicate_def Let_def)

lemma IsDuplicate_run_seen:
  "int (fcard (seen d |\<union>| fset_of_list hs)) \<le> max_df d \<Longrightarrow>
   seen (IsDuplicate_run d hs) = seen d |\<union>| fset_of_list hs \<and>
   max_df (IsDuplicate_run d hs) = max_df d"
proof (induction hs arbitrary: d)
  case Nil
  then show ?case by simp
next
  case (Cons h hs)
  let ?d1 = "snd (IsDuplicate d h)"
  have s1: "seen ?d1 = finsert h (seen d) \<and> max_df ?d1 = max_df d"
  proof (cases "h |\<in>| seen d")
    case True
    then show ?thesis by (auto simp: IsDuplicate_def)
  next
    case False
    have "fcard (finsert h (seen d)) \<le> fcard (seen d |\<union>| fset_of_list (h # hs))"
      by (rule fcard_mono) auto
    then have "int (fcard (seen d)) < max_df d"
      using False Cons.prems by (simp add: fcard_finsert_disjoint)
    then show ?thesis using False by (simp add: IsDuplicate_def Let_def)
  qed
  then have e: "seen ?d1 |\<union>| fset_of_list hs = seen d |\<union>| fset_of_list (h # hs)"
    by auto
  with Cons.prems s1 have "int (fcard (seen ?d1 |\<union>| fset_of_list hs)) \<le> max_df ?d1"
    by simp
  from Cons.IH[OF this] show ?case using e s1 by simp
qed

lemma IsDuplicate_run_keeps:
  "h |\<in>| seen d \<Longrightarrow> int (fcard (seen d |\<union>| fset_of_list hs)) \<le> max_df d \<Longrightarrow>
   fst (IsDuplicate (IsDuplicate_run d hs) h)"
  using IsDuplicate_run_seen[of d hs] by (simp add: IsDuplicate_def)


text \<open>
  C3, as stated, fails in its last part: a later call with the same hash returns false
  once the set was cleared in between. With capacity 1, the call with a second hash
  clears the set, and the first hash is new again.
\<close>

theorem C3_later_call_counterexample:
  "[0, 0, 0, 0, 0, 0, 0, 1] |\<in>| seen (IsDuplicate_run (NewDedupFilter 1) [[0, 0, 0, 0, 0, 0, 0, 1]]) \<and>
   \<not> fst (IsDuplicate
            (IsDuplicate_run (NewDedupFilter 1) [[0, 0, 0, 0, 0, 0, 0, 1], [0, 0, 0, 0, 0, 0, 0, 2]])
            [0, 0, 0, 0, 0, 0, 0, 1])"
  by (simp add: IsDuplicate_def NewDedupFilter_def Let_def fcard_finsert_if)

text \<open>
  C3, amended. \<open>PacketHash p\<close> is the first 8 bytes of the hash of \<open>p\<close>. \<open>IsDuplicate h\<close>
  returns true and changes nothing when \<open>h\<close> is in the set; otherwise it empties the set
  if it already holds \<open>DedupMaxEntries\<close> hashes or more, inserts \<open>h\<close> and returns false.
  A call repeated at once returns true. After any further calls, a call with a hash
  that was in the set still returns true as long as the set did not have to be cleared:
  when the hashes in the set and those of the calls in between are together at most
  \<open>DedupMaxEntries\<close>.
\<close>

theorem C3_PacketHash_IsDuplicate:
  assumes "length (Sum256 c p) = 32"
  shows "PacketHash c p = take 8 (Sum256 c p) \<and>
     (h |\<in>| seen d \<longrightarrow> IsDuplicate d h = (True, d)) \<and>
     (h |\<notin>| seen d \<longrightarrow> IsDuplicate d h =
        (False, d\<lparr>seen := finsert h (if max_df d \<le> int (fcard (seen d)) then {||} else seen d)\<rparr>)) \<and>
     IsDuplicate (snd (IsDuplicate d h)) h = (True, snd (IsDuplicate d h)) \<and>
     (h |\<in>| seen d \<and> int (fcard (seen d |\<union>| fset_of_list hs)) \<le> max_df d
        \<longrightarrow> fst (IsDuplicate (IsDuplicate_run d hs) h))"
  using assms
  by (simp add: PacketHash_eq IsDuplicate_present IsDuplicate_absent IsDuplicate_inserts
      IsDuplicate_run_keeps)

theorem C3_PacketHash_IsDuplicate_witness:
  "length (Sum256 demo_crypto [1, 2, 3]) = 32 \<and>
   PacketHash demo_crypto [1, 2, 3] = [3, 2, 1, 0, 0, 0, 0, 0] \<and>
   IsDuplicate (NewDedupFilter 2) [3, 2, 1, 0, 0, 0, 0, 0]
     = (False, \<lparr>seen = {|[3, 2, 1, 0, 0, 0, 0, 0]|}, max_df = 2\<rparr>) \<and>
   fst (IsDuplicate
          (IsDuplicate_run \<lparr>seen = {|[3, 2, 1, 0, 0, 0, 0, 0]|}, max_df = 2\<rparr>
             [[0, 0, 0, 0, 0, 0, 0, 2]])
          [3, 2, 1, 0, 0, 0, 0, 0])"
proof -
  have l: "length (Sum256 demo_crypto [1, 2, 3]) = 32" by (simp add: demo_crypto_def)
  have t: "take 8 (Sum256 demo_crypto [1, 2, 3]) = [3, 2, 1, 0, 0, 0, 0, 0]"
    by code_simp
  from C3_PacketHash_IsDuplicate[OF l, of "[3, 2, 1, 0, 0, 0, 0, 0]" "NewDedupFilter 2"]
       C3_PacketHash_IsDuplicate[OF l, of "[3, 2, 1, 0, 0, 0, 0, 0]"
          "\<lparr>seen = {|[3, 2, 1, 0, 0, 0, 0, 0]|}, max_df = 2\<rparr>" "[[0, 0, 0, 0, 0, 0, 0, 2]]"]
       l t
  show ?thesis by (simp add: NewDedupFilter_def fcard_finsert_if)
qed


section \<open>Mesh receive loop: what is dropped before any verification\<close>

lemma hexdigit_inj: "i < 16 \<Longrightarrow> j < 16 \<Longrightarrow> hexdigits ! i = hexdigits ! j \<Longrightarrow> i = j"
proof -
  have d: "distinct hexdigits" by (simp add: hexdigits_def)
  have l: "length hexdigits = 16" by (simp add: hexdigits_def)
  show "i < 16 \<Longrightarrow> j < 16 \<Longrightarrow> hexdigits ! i = hexdigits ! j \<Longrightarrow> i = j"
    using d l by (simp add: nth_eq_iff_index_eq)
qed

lemma hex_byte_inj:
  assumes "hexdigits ! (unat (a::byte) div 16) = hexdigits ! (unat (b::byte) div 16)"
    and "hexdigits ! (unat a mod 16) = hexdigits ! (unat b mod 16)"
  shows "a = b"
proof -
  have la: "unat a < 256" using unsigned_less[of a, where 'a = nat] by simp
  have lb: "unat b < 256" using unsigned_less[of b, where 'a = nat] by simp
  have "unat a div 16 = unat b div 16"
    using assms(1) la lb by (intro hexdigit_inj) auto
  moreover have "unat a mod 16 = unat b mod 16"
    using assms(2) by (intro hexdigit_inj) auto
  ultimately have "unat a = unat b" by (metis div_mult_mod_eq)
  then show ?thesis by (rule word_unat_eq_iff[THEN iffD2])
qed

lemma hex_EncodeToString_inj: "hex_EncodeToString xs = hex_EncodeToString ys \<Longrightarrow> xs = ys"
proof (induction xs arbitrary: ys)
  case Nil
  then show ?case by (cases ys) (simp_all add: hex_EncodeToString_def)
next
  case (Cons x xs)
  then obtain y ys' where ys: "ys = y # ys'"
    by (cases ys) (simp_all add: hex_EncodeToString_def)
  from Cons.prems have "x = y" and "hex_EncodeToString xs = hex_EncodeToString ys'"
    by (auto simp: ys hex_EncodeToString_def intro: hex_byte_inj)
  with Cons.IH ys show ?case by simp
qed

lemma IsSelf_iff: "IsSelf a k \<longleftrightarrow> k = PublicKey a"
  by (auto simp: IsSelf_def dest: hex_EncodeToString_inj)

lemma sender_key: "pubKeyLen \<le> length buf \<Longrightarrow>
  copy_bytes (replicate pubKeyLen 0) (subslice buf 0 pubKeyLen) = take 32 buf"
  by (simp add: copy_bytes_def subslice_def pubKeyLen_def)

lemma RecvLoop_iter_short:
  "n \<le> pubKeyLen + sigLen \<Longrightarrow> RecvLoop_iter c m err n buf = ([], m)"
  by (simp add: RecvLoop_iter_def split: option.splits)

lemma RecvLoop_iter_no_auth:
  "auth m = None \<Longrightarrow> RecvLoop_iter c m err n buf = ([], m)"
  by (simp add: RecvLoop_iter_def)

lemma RecvLoop_iter_self_or_revoked:
  assumes "auth m = Some a" and "n \<le> length buf"
    and "take 32 buf = PublicKey a \<or> revokedKeys a (hex_EncodeToString (take 32 buf))"
  shows "RecvLoop_iter c m err n buf = ([], m)"
proof (cases "n \<le> pubKeyLen + sigLen")
  case True
  then show ?thesis by (rule RecvLoop_iter_short)
next
  case False
  then have "pubKeyLen \<le> length buf" using assms(2) by simp
  then have k: "copy_bytes (replicate pubKeyLen 0) (subslice buf 0 pubKeyLen) = take 32 buf"
    by (rule sender_key)
  show ?thesis
    unfolding RecvLoop_iter_def Let_def k
    using assms(1,3) by (auto simp: IsSelf_iff IsRevoked_def)
qed

lemma RecvLoop_iter_routed:
  assumes "EvRouteFromMesh d \<in> set (fst (RecvLoop_iter c m err n buf))" and "n \<le> length buf"
  shows "\<exists>a. auth m = Some a \<and> take 32 buf \<noteq> PublicKey a \<and>
             \<not> revokedKeys a (hex_EncodeToString (take 32 buf))"
proof -
  from assms(1) obtain a where a: "auth m = Some a"
    by (cases "auth m") (simp_all add: RecvLoop_iter_no_auth)
  have "\<not> (take 32 buf = PublicKey a \<or> revokedKeys a (hex_EncodeToString (take 32 buf)))"
  proof
    assume "take 32 buf = PublicKey a \<or> revokedKeys a (hex_EncodeToString (take 32 buf))"
    from RecvLoop_iter_self_or_revoked[OF a assms(2) this] assms(1) show False by simp
  qed
  with a show ?thesis by blast
qed


text \<open>
  C2. For every datagram received (\<open>n\<close> bytes in the receive buffer), the payload is
  handed to \<open>RouteFromMesh\<close> only if the 32-byte sender key differs from the relay's own
  public key and its hex form is not in the revocation set. When the sender key is the
  relay's own or is revoked, the pass makes no call at all, neither to
  \<open>VerifyCertificate\<close> nor to \<open>Verify\<close> nor to \<open>RouteFromMesh\<close>, whatever the
  certificate and the signature are: both checks come before any Ed25519 verification.
\<close>

theorem C2_RecvLoop_drops_self_and_revoked:
  assumes "n \<le> length buf"
  shows "(EvRouteFromMesh d \<in> set (fst (RecvLoop_iter c m err n buf)) \<longrightarrow>
            (\<exists>a. auth m = Some a \<and> take 32 buf \<noteq> PublicKey a \<and>
                 \<not> revokedKeys a (hex_EncodeToString (take 32 buf)))) \<and>
         (\<forall>a. auth m = Some a \<and>
              (take 32 buf = PublicKey a \<or> revokedKeys a (hex_EncodeToString (take 32 buf)))
              \<longrightarrow> RecvLoop_iter c m err n buf = ([], m))"
  using assms RecvLoop_iter_routed RecvLoop_iter_self_or_revoked by blast

lemma demo_routed:
  "fst (RecvLoop_iter demo_crypto demo_link False 97 demo_datagram)
     = [EvVerify (replicate 32 5) (replicate 64 5) [7], EvRouteFromMesh [7]]"
  by code_simp

theorem C2_RecvLoop_witness:
  "97 \<le> length demo_datagram \<and>
   EvRouteFromMesh [7] \<in> set (fst (RecvLoop_iter demo_crypto demo_link False 97 demo_datagram)) \<and>
   take 32 demo_datagram \<noteq> PublicKey demo_auth \<and>
   \<not> revokedKeys demo_auth (hex_EncodeToString (take 32 demo_datagram)) \<and>
   RecvLoop_iter demo_crypto
      (demo_link\<lparr>auth := Some (demo_auth\<lparr>revokedKeys := (\<lambda>k. k = hex_EncodeToString (replicate 32 5))\<rparr>)\<rparr>)
      False 97 demo_datagram
     = ([], demo_link\<lparr>auth := Some (demo_auth\<lparr>revokedKeys := (\<lambda>k. k = hex_EncodeToString (replicate 32 5))\<rparr>)\<rparr>)"
proof -
  let ?a2 = "demo_auth\<lparr>revokedKeys := (\<lambda>k. k = hex_EncodeToString (replicate 32 5))\<rparr>"
  let ?m2 = "demo_link\<lparr>auth := Some ?a2\<rparr>"
  have l: "97 \<le> length demo_datagram" by (simp add: demo_datagram_def)
  have r: "EvRouteFromMesh [7] \<in> set (fst (RecvLoop_iter demo_crypto demo_link False 97 demo_datagram))"
    by (simp add: demo_routed)
  have t: "take 32 demo_datagram = replicate 32 5" by (simp add: demo_datagram_def)
  have au: "auth demo_link = Some demo_auth" by (simp add: demo_link_def)
  from C2_RecvLoop_drops_self_and_revoked[OF l, of "[7]" demo_crypto demo_link False] r
  obtain a where "auth demo_link = Some a" and k: "take 32 demo_datagram \<noteq> PublicKey a"
    "\<not> revokedKeys a (hex_EncodeToString (take 32 demo_datagram))" by blast
  with au have "a = demo_auth" by simp
  with k have k1: "take 32 demo_datagram \<noteq> PublicKey demo_auth"
    "\<not> revokedKeys demo_auth (hex_EncodeToString (take 32 demo_datagram))" by simp_all
  have au2: "auth ?m2 = Some ?a2" by simp
  have rv: "revokedKeys ?a2 (hex_EncodeToString (take 32 demo_datagram))"
    unfolding t by simp
  from C2_RecvLoop_drops_self_and_revoked[OF l, of "[7]" demo_crypto ?m2 False] au2 rv
  have d: "RecvLoop_iter demo_crypto ?m2 False 97 demo_datagram = ([], ?m2)" by blast
  from l r k1 d show ?thesis by blast
qed

section \<open>Mesh receive loop: a bare header is dropped\<close>

lemma length_copy_bytes: "length (copy_bytes dst src) = length dst"
  by (simp add: copy_bytes_def)

lemma MeshLink_Send_empty:
  "auth ms = Some sa \<Longrightarrow>
   length (last (sent (MeshLink_Send c ms []))) =
     (if HasCA sa \<and> HasCertificate sa then caHeaderLen else pubKeyLen + sigLen)"
  by (simp add: MeshLink_Send_def Let_def length_copy_bytes caHeaderLen_def)

lemma RecvLoop_iter_bare_header:
  assumes "auth m = Some a"
    and "(\<not> HasCA a \<and> n = pubKeyLen + sigLen) \<or> (HasCA a \<and> n \<le> caHeaderLen)"
  shows "RecvLoop_iter c m err n buf = ([], m)"
  using assms by (auto simp: RecvLoop_iter_def Let_def)

text \<open>
  C10. A datagram whose length is exactly the bare header of the open layout, 96 bytes,
  on a relay without CA key, or at most 160 bytes on a relay with CA key, is dropped:
  the pass makes no verification call and no call to \<open>RouteFromMesh\<close>, and leaves the
  link as it was. \<open>Send\<close> with an empty payload produces exactly such a datagram (160
  bytes when the sender has CA key and certificate, 96 otherwise), so a message with an
  empty payload is never delivered.
\<close>

theorem C10_bare_header_dropped:
  assumes "auth m = Some a"
    and "(\<not> HasCA a \<and> n = pubKeyLen + sigLen) \<or> (HasCA a \<and> n \<le> caHeaderLen)"
  shows "pubKeyLen + sigLen = 96 \<and> caHeaderLen = 160 \<and>
         RecvLoop_iter c m err n buf = ([], m) \<and>
         (\<forall>ms sa. auth ms = Some sa \<longrightarrow>
            length (last (sent (MeshLink_Send c ms []))) =
              (if HasCA sa \<and> HasCertificate sa then caHeaderLen else pubKeyLen + sigLen))"
  using RecvLoop_iter_bare_header[OF assms] MeshLink_Send_empty
  by (simp add: pubKeyLen_def sigLen_def certLen_def caHeaderLen_def)

theorem C10_bare_header_witness:
  "auth demo_link = Some demo_auth \<and> \<not> HasCA demo_auth \<and>
   RecvLoop_iter demo_crypto demo_link False 96 (replicate 96 5) = ([], demo_link) \<and>
   sent (MeshLink_Send demo_crypto (demo_link\<lparr>auth := Some demo_peer_auth\<rparr>) [])
     = [replicate 32 5 @ replicate 64 5] \<and>
   HasCA (demo_auth\<lparr>CAPubKey := Some (replicate 32 9)\<rparr>) \<and>
   RecvLoop_iter demo_crypto (demo_link\<lparr>auth := Some (demo_auth\<lparr>CAPubKey := Some (replicate 32 9)\<rparr>)\<rparr>)
      False 160 (replicate 160 5)
     = ([], demo_link\<lparr>auth := Some (demo_auth\<lparr>CAPubKey := Some (replicate 32 9)\<rparr>)\<rparr>)"
proof -
  let ?a2 = "demo_auth\<lparr>CAPubKey := Some (replicate 32 9)\<rparr>"
  let ?m2 = "demo_link\<lparr>auth := Some ?a2\<rparr>"
  have a: "auth demo_link = Some demo_auth" by (simp add: demo_link_def)
  have o: "\<not> HasCA demo_auth" by (simp add: HasCA_def demo_auth_def)
  have p1: "(\<not> HasCA demo_auth \<and> 96 = pubKeyLen + sigLen) \<or> (HasCA demo_auth \<and> 96 \<le> caHeaderLen)"
    using o by (simp add: pubKeyLen_def sigLen_def)
  have s: "sent (MeshLink_Send demo_crypto (demo_link\<lparr>auth := Some demo_peer_auth\<rparr>) [])
     = [replicate 32 5 @ replicate 64 5]"
    by code_simp
  have a2: "auth ?m2 = Some ?a2" by simp
  have h: "HasCA ?a2" by (simp add: HasCA_def)
  have p2: "(\<not> HasCA ?a2 \<and> 160 = pubKeyLen + sigLen) \<or> (HasCA ?a2 \<and> 160 \<le> caHeaderLen)"
    using h by (simp add: pubKeyLen_def sigLen_def certLen_def caHeaderLen_def)
  from C10_bare_header_dropped[OF a p1, of demo_crypto False "replicate 96 5"]
  have d1: "RecvLoop_iter demo_crypto demo_link False 96 (replicate 96 5) = ([], demo_link)"
    by blast
  from C10_bare_header_dropped[OF a2 p2, of demo_crypto False "replicate 160 5"]
  have d2: "RecvLoop_iter demo_crypto ?m2 False 160 (replicate 160 5) = ([], ?m2)"
    by blast
  from a o d1 s h d2 show ?thesis by blast
qed


section \<open>Router: duplicates are dropped, new packets are buffered and fanned out\<close>

lemma Route_duplicate:
  assumes "PacketHash c data |\<in>| seen (dedup r)"
  shows "RouteFromClient c r sender data = Inr r" and "RouteFromMesh c r data = Inr r"
  using assms by (simp_all add: RouteFromClient_def RouteFromMesh_def IsDuplicate_def)

lemma RouteFromClient_new:
  assumes "PacketHash c data |\<notin>| seen (dedup r)" and "ring_inv n xs (buffer r)"
  shows "\<exists>r'. RouteFromClient c r sender data = Inr r' \<and>
           ring_inv n (xs @ [data]) (buffer r') \<and>
           (\<forall>cl. store r' cl = (if cl |\<in>| clients r \<and> cl \<noteq> sender
                                 then SendData (store r cl) data else store r cl)) \<and>
           mesh r' = map_option (\<lambda>m. MeshLink_Send c m data) (mesh r) \<and>
           clients r' = clients r \<and>
           seen (dedup r') = finsert (PacketHash c data)
              (if max_df (dedup r) \<le> int (fcard (seen (dedup r))) then {||} else seen (dedup r)) \<and>
           max_df (dedup r') = max_df (dedup r)"
proof -
  from ring_inv_Add[OF assms(2), of data] obtain b
    where a: "Add (buffer r) data = Inr b" and i: "ring_inv n (xs @ [data]) b" by blast
  show ?thesis
    using assms(1) a i by (simp add: RouteFromClient_def IsDuplicate_def Let_def)
qed

lemma RouteFromMesh_new:
  assumes "PacketHash c data |\<notin>| seen (dedup r)" and "ring_inv n xs (buffer r)"
  shows "\<exists>r'. RouteFromMesh c r data = Inr r' \<and>
           ring_inv n (xs @ [data]) (buffer r') \<and>
           (\<forall>cl. store r' cl = (if cl |\<in>| clients r
                                 then SendData (store r cl) data else store r cl)) \<and>
           mesh r' = mesh r \<and>
           clients r' = clients r \<and>
           seen (dedup r') = finsert (PacketHash c data)
              (if max_df (dedup r) \<le> int (fcard (seen (dedup r))) then {||} else seen (dedup r)) \<and>
           max_df (dedup r') = max_df (dedup r)"
proof -
  from ring_inv_Add[OF assms(2), of data] obtain b
    where a: "Add (buffer r) data = Inr b" and i: "ring_inv n (xs @ [data]) b" by blast
  show ?thesis
    using assms(1) a i by (simp add: RouteFromMesh_def IsDuplicate_def Let_def)
qed

lemma route_new:
  assumes "PacketHash c (payload_of x) |\<notin>| seen (dedup r)" and "ring_inv n xs (buffer r)"
  shows "\<exists>r'. route c r x = Inr r' \<and>
           ring_inv n (xs @ [payload_of x]) (buffer r') \<and>
           (\<forall>cl. cl |\<notin>| clients r \<longrightarrow> store r' cl = store r cl) \<and>
           clients r' = clients r \<and>
           seen (dedup r') |\<subseteq>| finsert (PacketHash c (payload_of x)) (seen (dedup r))"
proof (cases x)
  case (FromClient sender data)
  from RouteFromClient_new[OF assms[unfolded FromClient payload_of.simps], of sender]
  show ?thesis unfolding FromClient by (auto split: if_splits)
next
  case (FromMesh data)
  from RouteFromMesh_new[OF assms[unfolded FromMesh payload_of.simps]]
  show ?thesis unfolding FromMesh by (auto split: if_splits)
qed

lemma route_all_distinct:
  assumes "ring_inv n xs (buffer r)"
    and "distinct (map (\<lambda>x. PacketHash c (payload_of x)) ins)"
    and "\<forall>x \<in> set ins. PacketHash c (payload_of x) |\<notin>| seen (dedup r)"
  shows "\<exists>r'. route_all c r ins = Inr r' \<and>
           ring_inv n (xs @ map payload_of ins) (buffer r') \<and>
           (\<forall>cl. cl |\<notin>| clients r \<longrightarrow> store r' cl = store r cl) \<and>
           clients r' = clients r"
  using assms
proof (induction ins arbitrary: r xs)
  case Nil
  then show ?case by simp
next
  case (Cons x ins)
  from Cons.prems(3) have nx: "PacketHash c (payload_of x) |\<notin>| seen (dedup r)" by simp
  from route_new[OF nx Cons.prems(1)] obtain r1 where
    r1: "route c r x = Inr r1" and i1: "ring_inv n (xs @ [payload_of x]) (buffer r1)"
    and s1: "\<forall>cl. cl |\<notin>| clients r \<longrightarrow> store r1 cl = store r cl"
    and c1: "clients r1 = clients r"
    and d1: "seen (dedup r1) |\<subseteq>| finsert (PacketHash c (payload_of x)) (seen (dedup r))"
    by blast
  have dist: "distinct (map (\<lambda>x. PacketHash c (payload_of x)) ins)"
    using Cons.prems(2) by simp
  have fresh: "\<forall>y \<in> set ins. PacketHash c (payload_of y) |\<notin>| seen (dedup r1)"
  proof
    fix y assume y: "y \<in> set ins"
    then have "PacketHash c (payload_of y) \<noteq> PacketHash c (payload_of x)"
      using Cons.prems(2) by (auto simp: image_iff)
    moreover have "PacketHash c (payload_of y) |\<notin>| seen (dedup r)"
      using Cons.prems(3) y by simp
    ultimately show "PacketHash c (payload_of y) |\<notin>| seen (dedup r1)"
      using d1 by auto
  qed
  from Cons.IH[OF i1 dist fresh] obtain r' where
    "route_all c r1 ins = Inr r'" "ring_inv n ((xs @ [payload_of x]) @ map payload_of ins) (buffer r')"
    "\<forall>cl. cl |\<notin>| clients r1 \<longrightarrow> store r' cl = store r1 cl" "clients r' = clients r1"
    by blast
  with r1 s1 c1 show ?case by simp
qed

lemma fold_SendData:
  "\<not> closed cl \<Longrightarrow>
   fold (\<lambda>pkt x. SendData x pkt) pkts cl =
     cl\<lparr>writeCh := writeCh cl @ map (Pair FrameData) (take (64 - length (writeCh cl)) pkts)\<rparr>"
proof (induction pkts arbitrary: cl)
  case Nil
  then show ?case by simp
next
  case (Cons p pkts)
  show ?case
  proof (cases "length (writeCh cl) < 64")
    case True
    let ?cl1 = "cl\<lparr>writeCh := writeCh cl @ [(FrameData, p)]\<rparr>"
    have s: "SendData cl p = ?cl1" using Cons.prems True by (simp add: SendData_def Client_Send_def)
    have "\<not> closed ?cl1" using Cons.prems by simp
    from Cons.IH[OF this] have
      "fold (\<lambda>pkt x. SendData x pkt) pkts ?cl1 =
        ?cl1\<lparr>writeCh := writeCh ?cl1 @ map (Pair FrameData) (take (64 - length (writeCh ?cl1)) pkts)\<rparr>" .
    moreover have "take (64 - length (writeCh cl)) (p # pkts) = p # take (64 - length (writeCh ?cl1)) pkts"
    proof -
      from True obtain k where k: "64 - length (writeCh cl) = Suc k"
        by (cases "64 - length (writeCh cl)") simp_all
      then have "64 - length (writeCh ?cl1) = k" by simp
      with k show ?thesis by simp
    qed
    ultimately show ?thesis by (simp add: s)
  next
    case False
    then have s: "SendData cl p = cl" using Cons.prems by (simp add: SendData_def Client_Send_def)
    from Cons.IH[OF Cons.prems] False show ?thesis by (simp add: s)
  qed
qed

lemma AddClient_fresh:
  assumes "ring_inv n xs (buffer r)" and "\<not> closed (store r cl)"
  shows "\<exists>r'. AddClient r cl = Inr r' \<and> clients r' = finsert cl (clients r) \<and>
           writeCh (store r' cl) = writeCh (store r cl)
              @ map (Pair FrameData) (take (64 - length (writeCh (store r cl))) (drop (length xs - n) xs))"
  using ring_inv_GetAll[OF assms(1)] fold_SendData[OF assms(2)]
  by (simp add: AddClient_def Let_def)


text \<open>
  C5. When the hash of a packet is already in the dedup set, \<open>RouteFromClient\<close> and
  \<open>RouteFromMesh\<close> return the router unchanged: nothing is added to the ring buffer,
  nothing is enqueued to any session, nothing is sent on the mesh link. Otherwise, on a
  router whose buffer is a ring buffer of capacity \<open>n\<close> holding the packets \<open>xs\<close>,
  \<open>RouteFromClient\<close> returns without panic; the packet is now the newest entry of the
  buffer; every session of the set except the sender got the packet through the
  non-blocking \<open>SendData\<close>, and no other queue changed; the packet went to \<open>Send\<close> of
  the mesh link if one is set; and its hash is in the dedup set.
\<close>

theorem C5_dedup_gates_routing:
  "(PacketHash c data |\<in>| seen (dedup r) \<longrightarrow>
      RouteFromClient c r sender data = Inr r \<and> RouteFromMesh c r data = Inr r) \<and>
   (PacketHash c data |\<notin>| seen (dedup r) \<and> ring_inv n xs (buffer r) \<longrightarrow>
      (\<exists>r'. RouteFromClient c r sender data = Inr r' \<and>
            GetAll (buffer r') = Inr (drop (Suc (length xs) - n) (xs @ [data])) \<and>
            (\<forall>cl. store r' cl = (if cl |\<in>| clients r \<and> cl \<noteq> sender
                                  then SendData (store r cl) data else store r cl)) \<and>
            mesh r' = map_option (\<lambda>m. MeshLink_Send c m data) (mesh r) \<and>
            clients r' = clients r \<and>
            PacketHash c data |\<in>| seen (dedup r')))"
proof (intro conjI impI)
  assume "PacketHash c data |\<in>| seen (dedup r)"
  then show "RouteFromClient c r sender data = Inr r" "RouteFromMesh c r data = Inr r"
    by (rule Route_duplicate)+
next
  assume a: "PacketHash c data |\<notin>| seen (dedup r) \<and> ring_inv n xs (buffer r)"
  from RouteFromClient_new[of c data r n xs sender] a obtain r' where
    r: "RouteFromClient c r sender data = Inr r'"
    and i: "ring_inv n (xs @ [data]) (buffer r')"
    and rest: "\<forall>cl. store r' cl = (if cl |\<in>| clients r \<and> cl \<noteq> sender
                                 then SendData (store r cl) data else store r cl)"
      "mesh r' = map_option (\<lambda>m. MeshLink_Send c m data) (mesh r)"
      "clients r' = clients r"
    and s: "seen (dedup r') = finsert (PacketHash c data)
              (if max_df (dedup r) \<le> int (fcard (seen (dedup r))) then {||} else seen (dedup r))"
    by blast
  from ring_inv_GetAll[OF i]
  have "GetAll (buffer r') = Inr (drop (Suc (length xs) - n) (xs @ [data]))" by simp
  moreover from s have "PacketHash c data |\<in>| seen (dedup r')" by simp
  ultimately show "\<exists>r'. RouteFromClient c r sender data = Inr r' \<and>
            GetAll (buffer r') = Inr (drop (Suc (length xs) - n) (xs @ [data])) \<and>
            (\<forall>cl. store r' cl = (if cl |\<in>| clients r \<and> cl \<noteq> sender
                                  then SendData (store r cl) data else store r cl)) \<and>
            mesh r' = map_option (\<lambda>m. MeshLink_Send c m data) (mesh r) \<and>
            clients r' = clients r \<and>
            PacketHash c data |\<in>| seen (dedup r')"
    using r rest by blast
qed

theorem C5_dedup_gates_routing_witness:
  "PacketHash demo_crypto [7] |\<notin>| seen (dedup demo_router) \<and>
   ring_inv 3 [] (buffer demo_router) \<and>
   (\<exists>r'. RouteFromClient demo_crypto demo_router 1 [7] = Inr r' \<and>
      GetAll (buffer r') = Inr [[7]] \<and>
      writeCh (store r' 2) = [(FrameData, [7])] \<and>
      writeCh (store r' 1) = [] \<and>
      map_option (\<lambda>m. length (sent m)) (mesh r') = Some 1 \<and>
      PacketHash demo_crypto [7] |\<in>| seen (dedup r') \<and>
      RouteFromClient demo_crypto r' 2 [7] = Inr r' \<and>
      RouteFromMesh demo_crypto r' [7] = Inr r')"
proof -
  have n: "PacketHash demo_crypto [7] |\<notin>| seen (dedup demo_router)"
    by (simp add: demo_router_def NewDedupFilter_def)
  have i: "ring_inv 3 [] (buffer demo_router)"
    by (simp add: ring_inv_def demo_router_def)
  from C5_dedup_gates_routing[of demo_crypto "[7]" demo_router 1 3 "[]"] n i
  obtain r' where r: "RouteFromClient demo_crypto demo_router 1 [7] = Inr r'"
    and g: "GetAll (buffer r') = Inr (drop (Suc (length ([]::bytes list)) - 3) ([] @ [[7]]))"
    and st: "\<forall>cl. store r' cl = (if cl |\<in>| clients demo_router \<and> cl \<noteq> 1
                                  then SendData (store demo_router cl) [7] else store demo_router cl)"
    and m: "mesh r' = map_option (\<lambda>m. MeshLink_Send demo_crypto m [7]) (mesh demo_router)"
    and s: "PacketHash demo_crypto [7] |\<in>| seen (dedup r')"
    by blast
  from g have g': "GetAll (buffer r') = Inr [[7]]" by simp
  from st have q2: "writeCh (store r' 2) = [(FrameData, [7])]"
    by (simp add: demo_router_def SendData_def Client_Send_def NewClient_def)
  from st have q1: "writeCh (store r' 1) = []"
    by (simp add: demo_router_def NewClient_def)
  from m have m': "map_option (\<lambda>m. length (sent m)) (mesh r') = Some 1"
    by (simp add: demo_router_def demo_link_def MeshLink_Send_def Let_def)
  from C5_dedup_gates_routing[of demo_crypto "[7]" r' 2] s
  have d: "RouteFromClient demo_crypto r' 2 [7] = Inr r'" "RouteFromMesh demo_crypto r' [7] = Inr r'"
    by blast+
  from n i r g' q2 q1 m' s d show ?thesis by blast
qed

section \<open>Router: store-and-forward at registration\<close>

lemma NewRouter_ok:
  assumes "0 < BufferSize cfg"
  shows "\<exists>r0. NewRouter cfg heap = Inr r0 \<and> ring_inv (nat (BufferSize cfg)) [] (buffer r0) \<and>
           clients r0 = {||} \<and> store r0 = heap \<and> seen (dedup r0) = {||}"
proof -
  from assms have "0 < nat (BufferSize cfg)" "int (nat (BufferSize cfg)) = BufferSize cfg" by simp_all
  with ring_inv_New[of "nat (BufferSize cfg)"] obtain pb where
    "NewPacketBuffer (BufferSize cfg) = Inr pb" "ring_inv (nat (BufferSize cfg)) [] pb" by auto
  then show ?thesis by (simp add: NewRouter_def NewDedupFilter_def)
qed

lemma AddClient_after_routing:
  assumes "0 < BufferSize cfg"
    and "distinct (map (\<lambda>x. PacketHash c (payload_of x)) ins)"
    and "\<not> closed (heap cl)"
  shows "\<exists>r0 r r'. NewRouter cfg heap = Inr r0 \<and> route_all c r0 ins = Inr r \<and>
           GetAll (buffer r) = Inr (drop (length ins - nat (BufferSize cfg)) (map payload_of ins)) \<and>
           AddClient r cl = Inr r' \<and>
           writeCh (store r' cl) = writeCh (heap cl) @ map (Pair FrameData)
             (take (64 - length (writeCh (heap cl)))
                (drop (length ins - nat (BufferSize cfg)) (map payload_of ins)))"
proof -
  let ?n = "nat (BufferSize cfg)"
  from NewRouter_ok[OF assms(1), of heap] obtain r0 where
    r0: "NewRouter cfg heap = Inr r0" and i0: "ring_inv ?n [] (buffer r0)"
    and c0: "clients r0 = {||}" and s0: "store r0 = heap" and d0: "seen (dedup r0) = {||}"
    by blast
  have fresh: "\<forall>x \<in> set ins. PacketHash c (payload_of x) |\<notin>| seen (dedup r0)"
    by (simp add: d0)
  from route_all_distinct[OF i0 assms(2) fresh] obtain r where
    r: "route_all c r0 ins = Inr r" and i: "ring_inv ?n ([] @ map payload_of ins) (buffer r)"
    and s: "\<forall>cl. cl |\<notin>| clients r0 \<longrightarrow> store r cl = store r0 cl"
    by blast
  from s c0 s0 have sc: "store r cl = heap cl" by simp
  from i have i': "ring_inv ?n (map payload_of ins) (buffer r)" by simp
  from ring_inv_GetAll[OF i'] have g:
    "GetAll (buffer r) = Inr (drop (length ins - ?n) (map payload_of ins))" by simp
  from assms(3) sc have "\<not> closed (store r cl)" by simp
  from AddClient_fresh[OF i' this] obtain r' where
    "AddClient r cl = Inr r'"
    "writeCh (store r' cl) = writeCh (store r cl)
       @ map (Pair FrameData) (take (64 - length (writeCh (store r cl)))
           (drop (length (map payload_of ins) - ?n) (map payload_of ins)))"
    by blast
  with r0 r g sc show ?thesis by simp
qed

text \<open>
  C4 fails on the code. A router built with the default configuration (buffer of 1000
  packets) routes the 65 packets \<open>[0]\<close>, \<dots>, \<open>[64]\<close> from the mesh, their hashes being
  distinct; the buffer then holds all 65. \<open>AddClient\<close> for a new session enqueues only
  the oldest 64 of them: the queue of a session holds 64 frames, nothing drains it during
  \<open>AddClient\<close>, and the non-blocking send drops the rest. The most recent packet \<open>[64]\<close>
  never reaches the session.
\<close>

theorem C4_AddClient_enqueues_only_64:
  assumes "distinct (map (PacketHash c) demo_packets)"
  shows "\<exists>r0 r r'. NewRouter DefaultConfig (\<lambda>_. NewClient) = Inr r0 \<and>
           route_all c r0 (map FromMesh demo_packets) = Inr r \<and>
           GetAll (buffer r) = Inr demo_packets \<and>
           AddClient r 0 = Inr r' \<and>
           writeCh (store r' 0) = map (Pair FrameData) (take 64 demo_packets) \<and>
           length demo_packets = 65"
proof -
  have b: "0 < BufferSize DefaultConfig" by (simp add: DefaultConfig_def)
  have p: "map payload_of (map FromMesh demo_packets) = demo_packets"
    by (simp add: comp_def)
  have d: "distinct (map (\<lambda>x. PacketHash c (payload_of x)) (map FromMesh demo_packets))"
    using assms by (simp add: comp_def)
  have l: "length demo_packets = 65" by (simp add: demo_packets_def)
  have nc: "\<not> closed ((\<lambda>_. NewClient) (0::nat))" by (simp add: NewClient_def)
  from AddClient_after_routing[OF b d, of "\<lambda>_. NewClient" 0, OF nc]
  show ?thesis unfolding p by (simp add: l DefaultConfig_def NewClient_def)
qed

lemma demo_packets_distinct: "distinct (map (PacketHash demo_crypto) demo_packets)"
  by code_simp

lemma demo_packets_last_dropped:
  "(FrameData, [64]) \<notin> set (map (Pair FrameData) (take 64 demo_packets)) \<and>
   last demo_packets = [64]"
  by code_simp

theorem C4_AddClient_witness:
  "distinct (map (PacketHash demo_crypto) demo_packets) \<and>
   (\<exists>r0 r r'. NewRouter DefaultConfig (\<lambda>_. NewClient) = Inr r0 \<and>
      route_all demo_crypto r0 (map FromMesh demo_packets) = Inr r \<and>
      GetAll (buffer r) = Inr demo_packets \<and>
      AddClient r 0 = Inr r' \<and>
      length (writeCh (store r' 0)) = 64 \<and>
      last demo_packets = [64] \<and>
      (FrameData, [64]) \<notin> set (writeCh (store r' 0)))"
proof -
  from C4_AddClient_enqueues_only_64[OF demo_packets_distinct]
  obtain r0 r r' where
    "NewRouter DefaultConfig (\<lambda>_. NewClient) = Inr r0"
    "route_all demo_crypto r0 (map FromMesh demo_packets) = Inr r"
    "GetAll (buffer r) = Inr demo_packets"
    "AddClient r 0 = Inr r'"
    and w: "writeCh (store r' 0) = map (Pair FrameData) (take 64 demo_packets)"
    and l: "length demo_packets = 65"
    by blast
  moreover from w l have "length (writeCh (store r' 0)) = 64" by simp
  moreover from w demo_packets_last_dropped
  have "last demo_packets = [64]" "(FrameData, [64]) \<notin> set (writeCh (store r' 0))" by simp_all
  ultimately show ?thesis using demo_packets_distinct by blast
qed


section \<open>Relay key: loaded or generated\<close>







text \<open>
  The stand-in directory gives the expected key and certificate paths, and with no CA
  key, no certificate file and no revocation list configured, the outcome does not depend
  on \<^verbatim>\<open>strings.TrimSpace\<close> or \<^verbatim>\<open>strings.ToLower\<close>, which are never called.
\<close>

lemma demo_key_path:
  "filepath_Join ''/etc/bitchat'' ''relay_ed25519.key'' = ''/etc/bitchat/relay_ed25519.key''"
  "filepath_Join ''/etc/bitchat'' ''relay.cert'' = ''/etc/bitchat/relay.cert''"
  by code_simp+

lemma demo_world_any_strings:
  "NewRelayAuth L demo_world ''/etc/bitchat'' [] [] =
   NewRelayAuth demo_strings demo_world ''/etc/bitchat'' [] []"
  by (simp add: demo_world_def demo_key_path NewRelayAuth_def Let_def loadCRL_def
      load_certificate_def)





end
